theory Spec2Isabelle
  imports Complex_Main "HOL-Library.Word"
begin

section \<open>Data model\<close>

text \<open>
  The sources compute with single-precision \<open>float\<close> values. A \<open>float\<close> is modelled by
  the real number it denotes, and an arithmetic operation on floats by the exact
  operation followed by \<open>to_float\<close>, the rounding to the nearest value with a 24-bit
  significand, ties to the even significand. The exponent is not bounded in the model:
  overflow to an infinity, subnormal numbers and NaN are outside it. Comparisons are
  exact, and so is the product \<open>m_cell_width * 2.0\<close>, which C++ evaluates in \<open>double\<close>.
  Where an operation leaves the finite values (a division by zero, a conversion to an
  integer type that cannot hold the value) the model returns an error value.
\<close>

type_synonym float = real

text \<open>
  \<open>ilog2 n\<close> is the position of the leading bit of \<open>n\<close>, \<open>pow2 e\<close> the power of two
  with an integer exponent, \<open>float_exponent x\<close> the exponent \<open>e\<close> with
  \<open>2^e \<le> x < 2^(e+1)\<close> of a positive \<open>x\<close>.
\<close>

fun ilog2 :: "nat \<Rightarrow> nat" where
  "ilog2 n = (if n < 2 then 0 else Suc (ilog2 (n div 2)))"

declare ilog2.simps [simp del]

definition pow2 :: "int \<Rightarrow> real" where
  "pow2 e = (if 0 \<le> e then 2 ^ nat e else 1 / 2 ^ nat (- e))"

definition float_exponent :: "real \<Rightarrow> int" where
  "float_exponent x =
     (if 1 \<le> x then int (ilog2 (nat \<lfloor>x\<rfloor>)) else - int (ilog2 (nat (\<lceil>1 / x\<rceil> - 1))) - 1)"

definition round_even :: "real \<Rightarrow> int" where
  "round_even r =
     (let f = \<lfloor>r\<rfloor> in
      if r - of_int f < 1 / 2 then f
      else if 1 / 2 < r - of_int f then f + 1
      else if even f then f else f + 1)"

definition to_float :: "real \<Rightarrow> float" where
  "to_float x =
     (if x = 0 then 0
      else let u = pow2 (float_exponent \<bar>x\<bar> - 23) in
           sgn x * of_int (round_even (\<bar>x\<bar> / u)) * u)"

definition float_add :: "float \<Rightarrow> float \<Rightarrow> float" where
  "float_add a b = to_float (a + b)"

definition float_sub :: "float \<Rightarrow> float \<Rightarrow> float" where
  "float_sub a b = to_float (a - b)"

definition float_mul :: "float \<Rightarrow> float \<Rightarrow> float" where
  "float_mul a b = to_float (a * b)"

definition float_div :: "float \<Rightarrow> float \<Rightarrow> float" where
  "float_div a b = to_float (a / b)"

text \<open>\<open>vec3<T>\<close>: three components of the same type.\<close>

record 'a vec3 =
  vec_x :: 'a
  vec_y :: 'a
  vec_z :: 'a

text \<open>
  \<open>box::Box\<close> is an external collaborator of the sources. The model keeps what the
  cell list and its iterators ask of it: the nearest plane distance, the 2D flag and
  the periodic wrap of a displacement vector.
\<close>

record Box =
  getNearestPlaneDistance :: "float vec3"
  is2D :: bool
  wrap :: "float vec3 \<Rightarrow> float vec3"

text \<open>
  Exceptions of the sources are values. \<open>undefined_conversion\<close> stands for a
  floating-point value converted to \<open>unsigned int\<close> that the type cannot hold, and
  \<open>out_of_bounds\<close> for an array access outside the allocated range and
  \<open>division_by_zero\<close> for a division by a zero count; C++ raises none of them.
\<close>

datatype error =
    runtime_error string
  | invalid_argument string
  | undefined_conversion
  | out_of_bounds
  | division_by_zero

text \<open>
  \<open>(unsigned int) (a / b)\<close> on floats: the single-precision quotient is truncated
  towards zero; the conversion is defined when the truncated value fits into 32 bits.
\<close>

definition float_to_uint :: "float \<Rightarrow> error + 32 word" where
  "float_to_uint r =
     (if - 1 < r \<and> r < 2 ^ 32 then Inr (of_nat (nat \<lfloor>r\<rfloor>)) else Inl undefined_conversion)"

definition quotient_to_uint :: "float \<Rightarrow> float \<Rightarrow> error + 32 word" where
  "quotient_to_uint a b =
     (if b = 0 then Inl undefined_conversion else float_to_uint (float_div a b))"

definition array_set :: "'a list \<Rightarrow> nat \<Rightarrow> 'a \<Rightarrow> error + 'a list" where
  "array_set xs i v = (if i < length xs then Inr (xs[i := v]) else Inl out_of_bounds)"

definition array_get :: "'a list \<Rightarrow> nat \<Rightarrow> error + 'a" where
  "array_get xs i = (if i < length xs then Inr (xs ! i) else Inl out_of_bounds)"

section \<open>LinkCell: construction of the cell grid\<close>

record LinkCell =
  m_box :: Box
  m_points :: "float vec3 list"
  m_n_points :: "32 word"
  m_cell_width :: float
  m_celldim :: "32 word vec3"
  m_size :: "32 word"
  m_Nc :: "32 word"
  m_cell_list :: "32 word list"
  m_cell_neighbors :: "32 word \<rightharpoonup> 32 word list"

definition LINK_CELL_TERMINATOR :: "32 word" where
  "LINK_CELL_TERMINATOR = 0xffffffff"

text \<open>\<open>LinkCell::computeDimensions\<close>\<close>

definition computeDimensions :: "Box \<Rightarrow> float \<Rightarrow> error + 32 word vec3" where
  "computeDimensions box cell_width =
     (let L = getNearestPlaneDistance box in
      case quotient_to_uint (vec_x L) cell_width of Inl e \<Rightarrow> Inl e | Inr dx \<Rightarrow>
      case quotient_to_uint (vec_y L) cell_width of Inl e \<Rightarrow> Inl e | Inr dy \<Rightarrow>
      case (if is2D box then Inr 1 else quotient_to_uint (vec_z L) cell_width) of
        Inl e \<Rightarrow> Inl e | Inr dz \<Rightarrow>
      Inr \<lparr> vec_x = (if dx = 0 then 1 else dx),
            vec_y = (if dy = 0 then 1 else dy),
            vec_z = (if dz = 0 then 1 else dz) \<rparr>)"

text \<open>
  \<open>LinkCell::computeCellList\<close>, a member function: it returns the exception it
  throws, if any, and the object as it is at that moment. \<open>getCell\<close> is declared in
  the header, which is not among the sources: it is a parameter here, the map from a
  point to the index of its cell. \<open>getNumCells\<close> returns the member \<open>m_size\<close>.
\<close>

definition getNumCells :: "LinkCell \<Rightarrow> 32 word" where
  "getNumCells lc = m_size lc"

fun init_cells :: "32 word \<Rightarrow> nat list \<Rightarrow> 32 word list \<Rightarrow> error + 32 word list" where
  "init_cells n_points [] cl = Inr cl"
| "init_cells n_points (cell # cells) cl =
     (case array_set cl (unat (n_points + of_nat cell)) LINK_CELL_TERMINATOR of
        Inl e \<Rightarrow> Inl e
      | Inr cl' \<Rightarrow> init_cells n_points cells cl')"

fun fill_cells ::
  "(float vec3 \<Rightarrow> 32 word) \<Rightarrow> float vec3 list \<Rightarrow> 32 word \<Rightarrow> int list \<Rightarrow> 32 word list
    \<Rightarrow> error + 32 word list" where
  "fill_cells getCell points n_points [] cl = Inr cl"
| "fill_cells getCell points n_points (i # idxs) cl =
     (case array_get points (nat i) of Inl e \<Rightarrow> Inl e | Inr p \<Rightarrow>
      let cell = getCell p in
      case array_get cl (unat (n_points + cell)) of Inl e \<Rightarrow> Inl e | Inr head \<Rightarrow>
      case array_set cl (nat i) head of Inl e \<Rightarrow> Inl e | Inr cl1 \<Rightarrow>
      case array_set cl1 (unat (n_points + cell)) (of_int i) of Inl e \<Rightarrow> Inl e | Inr cl2 \<Rightarrow>
      fill_cells getCell points n_points idxs cl2)"

definition computeCellList ::
  "(float vec3 \<Rightarrow> 32 word) \<Rightarrow> LinkCell \<Rightarrow> float vec3 list \<Rightarrow> 32 word
    \<Rightarrow> error option \<times> LinkCell" where
  "computeCellList getCell lc points n_points =
     (if n_points = 0
      then (Some (runtime_error ''Cannot generate a cell list of 0 particles.''), lc)
      else
        let Nc = getNumCells lc;
            lc1 = lc\<lparr> m_cell_list := replicate (unat (n_points + Nc)) 0,
                      m_n_points := n_points, m_Nc := Nc \<rparr> in
        case init_cells n_points [0 ..< unat Nc] (m_cell_list lc1) of
          Inl e \<Rightarrow> (Some e, lc1)
        | Inr cl \<Rightarrow>
            (case fill_cells getCell points n_points (rev [0 .. sint (n_points - 1)]) cl of
               Inl e \<Rightarrow> (Some e, lc1\<lparr> m_cell_list := cl \<rparr>)
             | Inr cl' \<Rightarrow> (None, lc1\<lparr> m_cell_list := cl' \<rparr>)))"

text \<open>
  The constructor \<open>LinkCell::LinkCell(box, cell_width, points, n_points)\<close>. The
  parameter \<open>getCell\<close> receives the box and the grid dimensions the constructor has
  stored by the time \<open>computeCellList\<close> runs.
\<close>

definition box_too_small :: "Box \<Rightarrow> float \<Rightarrow> bool" where
  "box_too_small box cell_width =
     (let nearest_plane_distance = getNearestPlaneDistance box in
      cell_width * 2 > vec_x nearest_plane_distance
      \<or> cell_width * 2 > vec_y nearest_plane_distance
      \<or> (\<not> is2D box \<and> cell_width * 2 > vec_z nearest_plane_distance))"

definition LinkCell_ctor ::
  "(Box \<Rightarrow> 32 word vec3 \<Rightarrow> float vec3 \<Rightarrow> 32 word) \<Rightarrow> Box \<Rightarrow> float \<Rightarrow> float vec3 list \<Rightarrow> 32 word
    \<Rightarrow> error + LinkCell" where
  "LinkCell_ctor getCell box cell_width points n_points =
     (case computeDimensions box cell_width of Inl e \<Rightarrow> Inl e | Inr celldim0 \<Rightarrow>
      if box_too_small box cell_width
      then Inl (runtime_error
             ''Cannot generate a cell list where cell_width is larger than half the box.'')
      else
        let celldim = (if is2D box then celldim0\<lparr> vec_z := 1 \<rparr> else celldim0);
            size = vec_x celldim * vec_y celldim * vec_z celldim in
        if size < 1 then Inl (runtime_error ''At least one cell must be present.'')
        else
          case computeCellList (getCell box celldim)
                 \<lparr> m_box = box, m_points = points, m_n_points = 0, m_cell_width = cell_width,
                   m_celldim = celldim, m_size = size, m_Nc = 0, m_cell_list = [],
                   m_cell_neighbors = Map.empty \<rparr>
                 points n_points of
            (Some e, lc) \<Rightarrow> Inl e
          | (None, lc) \<Rightarrow> Inr lc)"

section \<open>LinkCell: the neighbors of a cell\<close>

text \<open>
  \<open>LinkCell::indexToCoord\<close>. \<open>getMultiIndex\<close> of \<open>util::ManagedArray\<close> is not among
  the sources: it is a parameter, applied to the three grid dimensions and the index;
  the source reads its components 2, 1 and 0.
\<close>

definition indexToCoord ::
  "(32 word list \<Rightarrow> 32 word \<Rightarrow> 32 word list) \<Rightarrow> LinkCell \<Rightarrow> 32 word \<Rightarrow> error + 32 word vec3" where
  "indexToCoord getMultiIndex lc x =
     (let coord = getMultiIndex
                    [vec_x (m_celldim lc), vec_y (m_celldim lc), vec_z (m_celldim lc)] x in
      case array_get coord 2 of Inl e \<Rightarrow> Inl e | Inr c2 \<Rightarrow>
      case array_get coord 1 of Inl e \<Rightarrow> Inl e | Inr c1 \<Rightarrow>
      case array_get coord 0 of Inl e \<Rightarrow> Inl e | Inr c0 \<Rightarrow>
      Inr \<lparr> vec_x = c2, vec_y = c1, vec_z = c0 \<rparr>)"

text \<open>
  \<open>(m_celldim.x + neighi) % m_celldim.x\<close>: the \<open>int\<close> is converted to \<open>unsigned int\<close>,
  sum and remainder are unsigned, and the result is stored in an \<open>int\<close>.
\<close>

definition wrap_index :: "32 word \<Rightarrow> int \<Rightarrow> int" where
  "wrap_index d neigh = sint ((d + word_of_int neigh) mod d)"

text \<open>
  \<open>LinkCell::computeCellNeighbors\<close>. The loop variables are \<open>int\<close>s, here integers.
  \<open>coordToIndex\<close> is declared in the header and is a parameter. The function returns
  the sorted list and stores it in the map \<open>m_cell_neighbors\<close>.
\<close>

definition computeCellNeighbors ::
  "(32 word list \<Rightarrow> 32 word \<Rightarrow> 32 word list) \<Rightarrow> (int \<Rightarrow> int \<Rightarrow> int \<Rightarrow> 32 word) \<Rightarrow> LinkCell
    \<Rightarrow> 32 word \<Rightarrow> error + (32 word list \<times> LinkCell)" where
  "computeCellNeighbors getMultiIndex coordToIndex lc cur_cell =
     (case indexToCoord getMultiIndex lc cur_cell of Inl e \<Rightarrow> Inl e | Inr l_idx \<Rightarrow>
      let i = sint (vec_x l_idx); j = sint (vec_y l_idx); k = sint (vec_z l_idx);
          celldim = m_celldim lc;
          starti = (if vec_x celldim < 3 then i else i - 1);
          startj = (if vec_y celldim < 3 then j else j - 1);
          startk = (if vec_z celldim < 3 then k else k - 1);
          endi = (if vec_x celldim < 2 then i else i + 1);
          endj = (if vec_y celldim < 2 then j else j + 1);
          endk = (if vec_z celldim < 2 then k else k + 1);
          startk = (if is2D (m_box lc) then k else startk);
          endk = (if is2D (m_box lc) then k else endk);
          neighbor_cells =
            [coordToIndex (wrap_index (vec_x celldim) neighi) (wrap_index (vec_y celldim) neighj)
               (wrap_index (vec_z celldim) neighk).
               neighk \<leftarrow> [startk .. endk], neighj \<leftarrow> [startj .. endj], neighi \<leftarrow> [starti .. endi]];
          sorted_cells = sort neighbor_cells
      in Inr (sorted_cells, lc\<lparr> m_cell_neighbors := (m_cell_neighbors lc)(cur_cell \<mapsto> sorted_cells) \<rparr>))"

text \<open>
  The distance of two cell coordinates along an axis of \<open>d\<close> cells with periodic wrap:
  the shorter way round. The Chebyshev distance of two cells is the largest of the
  three.
\<close>

definition periodic_distance :: "int \<Rightarrow> int \<Rightarrow> int \<Rightarrow> int" where
  "periodic_distance d a b = min ((a - b) mod d) ((b - a) mod d)"

definition chebyshev_distance :: "int vec3 \<Rightarrow> int vec3 \<Rightarrow> int vec3 \<Rightarrow> int" where
  "chebyshev_distance celldim a b =
     max (periodic_distance (vec_x celldim) (vec_x a) (vec_x b))
       (max (periodic_distance (vec_y celldim) (vec_y a) (vec_y b))
            (periodic_distance (vec_z celldim) (vec_z a) (vec_z b)))"

section \<open>LinkCell: the query iterators\<close>

text \<open>
  The operations on \<open>vec3\<close> that the iterators use (\<open>VectorMath.h\<close> is not among the
  sources): the componentwise difference and the dot product of \<open>float\<close> vectors,
  one rounding for each operation, the sum of \<open>int\<close> vectors and the conversion of a
  vector of \<open>unsigned int\<close> to \<open>int\<close>.
\<close>

definition vec_minus :: "float vec3 \<Rightarrow> float vec3 \<Rightarrow> float vec3" where
  "vec_minus a b =
     \<lparr> vec_x = float_sub (vec_x a) (vec_x b), vec_y = float_sub (vec_y a) (vec_y b),
       vec_z = float_sub (vec_z a) (vec_z b) \<rparr>"

definition dot :: "float vec3 \<Rightarrow> float vec3 \<Rightarrow> float" where
  "dot a b =
     float_add (float_add (float_mul (vec_x a) (vec_x b)) (float_mul (vec_y a) (vec_y b)))
       (float_mul (vec_z a) (vec_z b))"

definition vec_plus :: "int vec3 \<Rightarrow> int vec3 \<Rightarrow> int vec3" where
  "vec_plus a b = \<lparr> vec_x = vec_x a + vec_x b, vec_y = vec_y a + vec_y b, vec_z = vec_z a + vec_z b \<rparr>"

definition vec_int :: "32 word vec3 \<Rightarrow> int vec3" where
  "vec_int c = \<lparr> vec_x = sint (vec_x c), vec_y = sint (vec_y c), vec_z = sint (vec_z c) \<rparr>"

text \<open>
  \<open>NeighborBond\<close>: the index of the query point (\<open>id\<close> in the sources), the index of
  the reference point and their distance.
\<close>

record NeighborBond =
  bond_id :: "32 word"
  ref_id :: "32 word"
  distance :: float

text \<open>
  Modelled from the spec: \<open>IteratorCellShell\<close> is declared in \<open>LinkCell.h\<close>, which is not
  among the sources. It is the \<open>CellShellIterator\<close> of the spec, an expanding sequence of
  relative cell offsets grouped into shells of increasing radius, radius 0 being the
  origin cell only; its state is the current shell radius, the position within the
  shell and the 2D flag, and it exposes the radius. The order within a shell is left
  open by the spec: the offsets of shell \<open>r\<close>, in the order of the header, are the
  parameter \<open>cell_shell\<close> below. Incrementing moves on within the shell and, at its end,
  to the first offset of the next shell.
\<close>

record IteratorCellShell =
  m_range :: nat
  m_offset :: nat
  m_is2D :: bool

text \<open>
  \<open>QueryArgs\<close> (\<open>NeighborQuery.h\<close>, not among the sources), with the fields the
  sources read; \<open>mode_none\<close> stands for every mode other than the two that
  \<open>querySingle\<close> handles.
\<close>

datatype QueryType = mode_none | mode_ball | mode_nearest

record QueryArgs =
  args_mode :: QueryType
  args_num_neighbors :: "32 word"
  args_r_max :: float
  args_r_min :: float
  args_exclude_ii :: bool

text \<open>
  What the sources call and the headers declare is a parameter of the model:
  \<open>getCellCoord\<close> (the cell coordinates of a point), \<open>getCellIndex\<close> (the index of the
  cell with given, possibly out-of-range, coordinates), the offsets of a shell,
  the value that the constructor of the ball iterator gives to \<open>m_extra_search_width\<close>,
  and \<open>validateQueryArgs\<close>, which throws or returns the arguments to use.
\<close>

record LinkCell_h =
  getCellCoord :: "Box \<Rightarrow> 32 word vec3 \<Rightarrow> float vec3 \<Rightarrow> 32 word vec3"
  getCellIndex :: "32 word vec3 \<Rightarrow> int vec3 \<Rightarrow> 32 word"
  cell_shell :: "bool \<Rightarrow> nat \<Rightarrow> int vec3 list"
  search_width :: "LinkCell \<Rightarrow> float \<Rightarrow> int"
  validateQueryArgs :: "LinkCell \<Rightarrow> QueryArgs \<Rightarrow> error + QueryArgs"

definition IteratorCellShell_ctor :: "nat \<Rightarrow> bool \<Rightarrow> IteratorCellShell" where
  "IteratorCellShell_ctor r is_2D = \<lparr> m_range = r, m_offset = 0, m_is2D = is_2D \<rparr>"

definition shell_deref :: "LinkCell_h \<Rightarrow> IteratorCellShell \<Rightarrow> error + int vec3" where
  "shell_deref h it = array_get (cell_shell h (m_is2D it) (m_range it)) (m_offset it)"

definition shell_incr :: "LinkCell_h \<Rightarrow> IteratorCellShell \<Rightarrow> IteratorCellShell" where
  "shell_incr h it =
     (if m_offset it + 1 < length (cell_shell h (m_is2D it) (m_range it))
      then it\<lparr> m_offset := m_offset it + 1 \<rparr>
      else it\<lparr> m_range := m_range it + 1, m_offset := 0 \<rparr>)"

definition getRange :: "IteratorCellShell \<Rightarrow> int" where
  "getRange it = int (m_range it)"

text \<open>
  \<open>getCell_of\<close> is \<open>getCell\<close> as the header composes it from the two parameters (the
  name \<open>getCell\<close> is the parameter of \<open>computeCellList\<close> above). \<open>itercell\<close> gives an
  \<open>IteratorLinkCell\<close>: the array that \<open>computeCellList\<close> fills holds for every point the
  next point of its cell and, at index \<open>m_n_points + cell\<close>, the first point of the
  cell; the iterator is the current index into that array, \<open>next()\<close> follows the link
  and \<open>atEnd()\<close> compares with \<open>LINK_CELL_TERMINATOR\<close>.
\<close>

definition getCell_of :: "LinkCell_h \<Rightarrow> Box \<Rightarrow> 32 word vec3 \<Rightarrow> float vec3 \<Rightarrow> 32 word" where
  "getCell_of h box celldim p = getCellIndex h celldim (vec_int (getCellCoord h box celldim p))"

definition point_cell_of :: "LinkCell_h \<Rightarrow> LinkCell \<Rightarrow> float vec3 \<Rightarrow> int vec3" where
  "point_cell_of h lc p = vec_int (getCellCoord h (LinkCell.m_box lc) (m_celldim lc) p)"

definition itercell :: "LinkCell \<Rightarrow> 32 word \<Rightarrow> 32 word" where
  "itercell lc cell = m_n_points lc + cell"

definition getCellWidth :: "LinkCell \<Rightarrow> float" where
  "getCellWidth lc = m_cell_width lc"

definition ITERATOR_TERMINATOR :: NeighborBond where
  "ITERATOR_TERMINATOR = \<lparr> bond_id = - 1, ref_id = - 1, distance = 0 \<rparr>"

text \<open>
  The members of the iterators. Modelled from the spec: their constructors are in the
  header; an iterator starts at shell 0 with the cell iterator of the cell of the query
  point, no searched cell, not finished, and for the nearest-neighbor iterator no
  buffered bond and a count of 0.
\<close>

record LinkCellIterator =
  m_linkcell :: LinkCell
  m_query_point :: "float vec3"
  m_query_point_idx :: "32 word"
  m_r_max :: float
  m_r_min :: float
  m_exclude_ii :: bool
  m_neigh_cell_iter :: IteratorCellShell
  m_cell_iter :: "32 word"
  m_searched_cells :: "32 word set"
  m_finished :: bool

record LinkCellQueryBallIterator = LinkCellIterator +
  m_extra_search_width :: int

record LinkCellQueryIterator = LinkCellIterator +
  m_count :: "32 word"
  m_num_neighbors :: "32 word"
  m_current_neighbors :: "NeighborBond list"

definition LinkCellIterator_ctor ::
  "LinkCell_h \<Rightarrow> LinkCell \<Rightarrow> float vec3 \<Rightarrow> 32 word \<Rightarrow> float \<Rightarrow> float \<Rightarrow> bool
    \<Rightarrow> LinkCellIterator" where
  "LinkCellIterator_ctor h lc query_point query_point_idx r_max r_min exclude_ii =
     \<lparr> m_linkcell = lc, m_query_point = query_point, m_query_point_idx = query_point_idx,
       m_r_max = r_max, m_r_min = r_min, m_exclude_ii = exclude_ii,
       m_neigh_cell_iter = IteratorCellShell_ctor 0 (is2D (LinkCell.m_box lc)),
       m_cell_iter = itercell lc (getCell_of h (LinkCell.m_box lc) (m_celldim lc) query_point),
       m_searched_cells = {}, m_finished = False \<rparr>"

definition LinkCellQueryBallIterator_ctor ::
  "LinkCell_h \<Rightarrow> LinkCell \<Rightarrow> float vec3 \<Rightarrow> 32 word \<Rightarrow> float \<Rightarrow> float \<Rightarrow> bool
    \<Rightarrow> LinkCellQueryBallIterator" where
  "LinkCellQueryBallIterator_ctor h lc query_point query_point_idx r_max r_min exclude_ii =
     LinkCellIterator.extend
       (LinkCellIterator_ctor h lc query_point query_point_idx r_max r_min exclude_ii)
       (LinkCellQueryBallIterator.fields (search_width h lc r_max))"

definition LinkCellQueryIterator_ctor ::
  "LinkCell_h \<Rightarrow> LinkCell \<Rightarrow> float vec3 \<Rightarrow> 32 word \<Rightarrow> 32 word \<Rightarrow> float \<Rightarrow> float
    \<Rightarrow> bool \<Rightarrow> LinkCellQueryIterator" where
  "LinkCellQueryIterator_ctor h lc query_point query_point_idx num_neighbors r_max r_min
       exclude_ii =
     LinkCellIterator.extend
       (LinkCellIterator_ctor h lc query_point query_point_idx r_max r_min exclude_ii)
       (LinkCellQueryIterator.fields 0 num_neighbors [])"

text \<open>
  \<open>LinkCellQueryBallIterator::next\<close>. \<open>scan_cell\<close> is the \<open>for\<close> loop over the points of
  the current cell: it returns the first bond that passes the tests and the position
  of the cell iterator, or no bond at the end of the cell. \<open>ball_advance\<close> is the inner
  \<open>while\<close> loop, which moves to the next cell not yet searched or reports that the
  shell is out of range, and \<open>ball_loop\<close> the outer one. The loops are partial
  functions: a run that does not end has the value \<open>None\<close>.
\<close>

definition r_sq_of :: "'a LinkCellIterator_scheme \<Rightarrow> float vec3 \<Rightarrow> float" where
  "r_sq_of it p =
     (let r_ij = wrap (LinkCell.m_box (m_linkcell it)) (vec_minus p (m_query_point it))
      in dot r_ij r_ij)"

partial_function (option) scan_cell ::
  "'a LinkCellIterator_scheme \<Rightarrow> 32 word \<Rightarrow> (error + (NeighborBond option \<times> 32 word)) option" where
  "scan_cell it cur =
     (case array_get (m_cell_list (m_linkcell it)) (unat cur) of
        Inl e \<Rightarrow> Some (Inl e)
      | Inr j \<Rightarrow>
          if j = LINK_CELL_TERMINATOR then Some (Inr (None, j))
          else if m_exclude_ii it \<and> m_query_point_idx it = j then scan_cell it j
          else
            (case array_get (m_points (m_linkcell it)) (unat j) of
               Inl e \<Rightarrow> Some (Inl e)
             | Inr p \<Rightarrow>
                 let r_sq = r_sq_of it p in
                 if r_sq < float_mul (LinkCellIterator.m_r_max it) (LinkCellIterator.m_r_max it)
                    \<and> r_sq \<ge> float_mul (m_r_min it) (m_r_min it)
                 then Some (Inr (Some \<lparr> bond_id = m_query_point_idx it, ref_id = j,
                                        distance = to_float (sqrt r_sq) \<rparr>, j))
                 else scan_cell it j))"

partial_function (option) ball_advance ::
  "LinkCell_h \<Rightarrow> int vec3 \<Rightarrow> LinkCellQueryBallIterator
    \<Rightarrow> (error + (bool \<times> LinkCellQueryBallIterator)) option" where
  "ball_advance h point_cell it =
     (let it1 = it\<lparr> m_neigh_cell_iter := shell_incr h (m_neigh_cell_iter it) \<rparr> in
      if float_mul (to_float (of_int (getRange (m_neigh_cell_iter it1) - m_extra_search_width it1)))
           (getCellWidth (m_linkcell it1)) > LinkCellIterator.m_r_max it1
      then Some (Inr (True, it1))
      else
        (case shell_deref h (m_neigh_cell_iter it1) of
           Inl e \<Rightarrow> Some (Inl e)
         | Inr off \<Rightarrow>
             let neighbor_cell_index =
                   getCellIndex h (m_celldim (m_linkcell it1)) (vec_plus point_cell off);
                 inserted = (neighbor_cell_index \<notin> m_searched_cells it1);
                 it2 = it1\<lparr> m_searched_cells := insert neighbor_cell_index (m_searched_cells it1) \<rparr>
             in
             if inserted
             then Some (Inr (False,
                    it2\<lparr> m_cell_iter := itercell (m_linkcell it2) neighbor_cell_index \<rparr>))
             else ball_advance h point_cell it2))"

partial_function (option) ball_loop ::
  "LinkCell_h \<Rightarrow> int vec3 \<Rightarrow> LinkCellQueryBallIterator
    \<Rightarrow> (error + (NeighborBond \<times> LinkCellQueryBallIterator)) option" where
  "ball_loop h point_cell it =
     Option.bind (scan_cell it (m_cell_iter it)) (\<lambda>r.
       case r of
         Inl e \<Rightarrow> Some (Inl e)
       | Inr (Some nb, cur) \<Rightarrow> Some (Inr (nb, it\<lparr> m_cell_iter := cur \<rparr>))
       | Inr (None, cur) \<Rightarrow>
           Option.bind (ball_advance h point_cell (it\<lparr> m_cell_iter := cur \<rparr>)) (\<lambda>a.
             case a of
               Inl e \<Rightarrow> Some (Inl e)
             | Inr (out_of_range, it') \<Rightarrow>
                 if out_of_range
                 then Some (Inr (ITERATOR_TERMINATOR, it'\<lparr> m_finished := True \<rparr>))
                 else ball_loop h point_cell it'))"

definition LinkCellQueryBallIterator_next ::
  "LinkCell_h \<Rightarrow> LinkCellQueryBallIterator
    \<Rightarrow> (error + (NeighborBond \<times> LinkCellQueryBallIterator)) option" where
  "LinkCellQueryBallIterator_next h it =
     (let point_cell = point_cell_of h (m_linkcell it) (m_query_point it) in
      case shell_deref h (m_neigh_cell_iter it) of
        Inl e \<Rightarrow> Some (Inl e)
      | Inr off \<Rightarrow>
          let point_cell_index =
                getCellIndex h (m_celldim (m_linkcell it)) (vec_plus point_cell off) in
          ball_loop h point_cell
            (it\<lparr> m_searched_cells := insert point_cell_index (m_searched_cells it) \<rparr>))"

text \<open>
  A query drains the iterator: \<open>next\<close> is called until the iterator is finished, and
  the bonds returned before are collected in order.
\<close>

partial_function (option) ball_query ::
  "LinkCell_h \<Rightarrow> LinkCellQueryBallIterator \<Rightarrow> (error + NeighborBond list) option" where
  "ball_query h it =
     Option.bind (LinkCellQueryBallIterator_next h it) (\<lambda>r.
       case r of
         Inl e \<Rightarrow> Some (Inl e)
       | Inr (nb, it') \<Rightarrow>
           if m_finished it' then Some (Inr [])
           else Option.bind (ball_query h it') (\<lambda>rs.
                  case rs of Inl e \<Rightarrow> Some (Inl e) | Inr bonds \<Rightarrow> Some (Inr (nb # bonds))))"

text \<open>
  \<open>LinkCellQueryIterator::next\<close>. \<open>max_range_of\<close> is the bound on the shell radius,
  \<open>collect_cell\<close> the \<open>for\<close> loop that appends the bonds of the current cell to the
  buffer, \<open>knn_advance\<close> the inner and \<open>knn_search\<close> the outer \<open>while\<close> loop,
  \<open>enough_neighbors\<close> the test for early termination and \<open>yield_neighbor\<close> the final
  loop that hands out the next buffered bond. Modelled from the spec: \<open>operator<\<close> of
  \<open>NeighborBond\<close> is not among the sources; the buffer is sorted by distance, and
  bonds of equal distance keep their order.
\<close>

definition max_range_of :: "LinkCell \<Rightarrow> error + 32 word" where
  "max_range_of lc =
     (let plane_distance = getNearestPlaneDistance (LinkCell.m_box lc);
          min_plane_distance0 = min (vec_x plane_distance) (vec_y plane_distance);
          min_plane_distance =
            (if \<not> is2D (LinkCell.m_box lc) then min min_plane_distance0 (vec_z plane_distance)
             else min_plane_distance0)
      in if float_mul 2 (getCellWidth lc) = 0 then Inl undefined_conversion
         else float_to_uint
                (float_add
                   (of_int \<lceil>float_div min_plane_distance (float_mul 2 (getCellWidth lc))\<rceil>) 1))"

partial_function (option) collect_cell ::
  "'a LinkCellIterator_scheme \<Rightarrow> 32 word \<Rightarrow> NeighborBond list
    \<Rightarrow> (error + (NeighborBond list \<times> 32 word)) option" where
  "collect_cell it cur acc =
     (case array_get (m_cell_list (m_linkcell it)) (unat cur) of
        Inl e \<Rightarrow> Some (Inl e)
      | Inr j \<Rightarrow>
          if j = LINK_CELL_TERMINATOR then Some (Inr (acc, j))
          else if m_exclude_ii it \<and> m_query_point_idx it = j then collect_cell it j acc
          else
            (case array_get (m_points (m_linkcell it)) (unat j) of
               Inl e \<Rightarrow> Some (Inl e)
             | Inr p \<Rightarrow>
                 let r_sq = r_sq_of it p in
                 if r_sq < float_mul (LinkCellIterator.m_r_max it) (LinkCellIterator.m_r_max it)
                    \<and> r_sq \<ge> float_mul (m_r_min it) (m_r_min it)
                 then collect_cell it j
                        (acc @ [\<lparr> bond_id = m_query_point_idx it, ref_id = j,
                                  distance = to_float (sqrt r_sq) \<rparr>])
                 else collect_cell it j acc))"

partial_function (option) knn_advance ::
  "LinkCell_h \<Rightarrow> int vec3 \<Rightarrow> IteratorCellShell \<Rightarrow> LinkCellQueryIterator
    \<Rightarrow> (error + LinkCellQueryIterator) option" where
  "knn_advance h point_cell stop it =
     (let it1 = it\<lparr> m_neigh_cell_iter := shell_incr h (m_neigh_cell_iter it) \<rparr> in
      if m_neigh_cell_iter it1 = stop then Some (Inr it1)
      else
        (case shell_deref h (m_neigh_cell_iter it1) of
           Inl e \<Rightarrow> Some (Inl e)
         | Inr off \<Rightarrow>
             let neighbor_cell_index =
                   getCellIndex h (m_celldim (m_linkcell it1)) (vec_plus point_cell off);
                 inserted = (neighbor_cell_index \<notin> m_searched_cells it1);
                 it2 = it1\<lparr> m_searched_cells := insert neighbor_cell_index (m_searched_cells it1) \<rparr>
             in
             if inserted
             then Some (Inr (it2\<lparr> m_cell_iter := itercell (m_linkcell it2) neighbor_cell_index \<rparr>))
             else knn_advance h point_cell stop it2))"

definition enough_neighbors :: "LinkCellQueryIterator \<Rightarrow> error + bool" where
  "enough_neighbors it =
     (if length (m_current_neighbors it) \<ge> unat (m_num_neighbors it)
      then
        (case array_get (m_current_neighbors it) (unat (m_num_neighbors it - 1)) of
           Inl e \<Rightarrow> Inl e
         | Inr nb \<Rightarrow>
             Inr (distance nb
                    < float_mul (to_float (of_int (getRange (m_neigh_cell_iter it) - 1)))
                        (getCellWidth (m_linkcell it))))
      else Inr False)"

partial_function (option) knn_search ::
  "LinkCell_h \<Rightarrow> int vec3 \<Rightarrow> IteratorCellShell \<Rightarrow> LinkCellQueryIterator
    \<Rightarrow> (error + LinkCellQueryIterator) option" where
  "knn_search h point_cell stop it =
     (if m_neigh_cell_iter it = stop then Some (Inr it)
      else
        Option.bind
          (if m_cell_iter it \<noteq> LINK_CELL_TERMINATOR
           then collect_cell it (m_cell_iter it) (m_current_neighbors it)
           else Some (Inr (m_current_neighbors it, m_cell_iter it)))
          (\<lambda>r. case r of
             Inl e \<Rightarrow> Some (Inl e)
           | Inr (buf, cur) \<Rightarrow>
               Option.bind
                 (knn_advance h point_cell stop
                    (it\<lparr> m_cell_iter := cur, m_current_neighbors := buf \<rparr>))
                 (\<lambda>a. case a of
                    Inl e \<Rightarrow> Some (Inl e)
                  | Inr it1 \<Rightarrow>
                      let it2 = it1\<lparr> m_current_neighbors :=
                                        sort_key distance (m_current_neighbors it1) \<rparr> in
                      (case enough_neighbors it2 of
                         Inl e \<Rightarrow> Some (Inl e)
                       | Inr enough \<Rightarrow>
                           if enough then Some (Inr it2)
                           else knn_search h point_cell stop it2))))"

definition yield_neighbor ::
  "LinkCellQueryIterator \<Rightarrow> error + (NeighborBond \<times> LinkCellQueryIterator)" where
  "yield_neighbor it =
     (if m_count it < m_num_neighbors it \<and> unat (m_count it) < length (m_current_neighbors it)
      then
        let it1 = it\<lparr> m_count := m_count it + 1 \<rparr> in
        (case array_get (m_current_neighbors it1) (unat (m_count it1 - 1)) of
           Inl e \<Rightarrow> Inl e
         | Inr nb \<Rightarrow>
             if distance nb > LinkCellIterator.m_r_max it1
             then Inr (ITERATOR_TERMINATOR, it1\<lparr> m_finished := True \<rparr>)
             else Inr (nb, it1))
      else Inr (ITERATOR_TERMINATOR, it\<lparr> m_finished := True \<rparr>))"

definition LinkCellQueryIterator_next ::
  "LinkCell_h \<Rightarrow> LinkCellQueryIterator
    \<Rightarrow> (error + (NeighborBond \<times> LinkCellQueryIterator)) option" where
  "LinkCellQueryIterator_next h it =
     (case max_range_of (m_linkcell it) of
        Inl e \<Rightarrow> Some (Inl e)
      | Inr max_range \<Rightarrow>
          let point_cell = point_cell_of h (m_linkcell it) (m_query_point it) in
          case shell_deref h (m_neigh_cell_iter it) of
            Inl e \<Rightarrow> Some (Inl e)
          | Inr off \<Rightarrow>
              let point_cell_index =
                    getCellIndex h (m_celldim (m_linkcell it)) (vec_plus point_cell off);
                  it1 = it\<lparr> m_searched_cells := insert point_cell_index (m_searched_cells it) \<rparr>
              in
              Option.bind
                (if m_current_neighbors it1 = []
                 then knn_search h point_cell
                        (IteratorCellShell_ctor (unat max_range)
                           (is2D (LinkCell.m_box (m_linkcell it1)))) it1
                 else Some (Inr it1))
                (\<lambda>r. case r of
                   Inl e \<Rightarrow> Some (Inl e)
                 | Inr it2 \<Rightarrow> Some (yield_neighbor it2)))"

partial_function (option) knn_query ::
  "LinkCell_h \<Rightarrow> LinkCellQueryIterator \<Rightarrow> (error + NeighborBond list) option" where
  "knn_query h it =
     Option.bind (LinkCellQueryIterator_next h it) (\<lambda>r.
       case r of
         Inl e \<Rightarrow> Some (Inl e)
       | Inr (nb, it') \<Rightarrow>
           if m_finished it' then Some (Inr [])
           else Option.bind (knn_query h it') (\<lambda>rs.
                  case rs of Inl e \<Rightarrow> Some (Inl e) | Inr bonds \<Rightarrow> Some (Inr (nb # bonds))))"

text \<open>
  \<open>LinkCell::querySingle\<close>: the arguments are validated before an iterator is made.
\<close>

datatype NeighborQueryPerPointIterator =
    BallIterator LinkCellQueryBallIterator
  | NearestIterator LinkCellQueryIterator

definition querySingle ::
  "LinkCell_h \<Rightarrow> LinkCell \<Rightarrow> float vec3 \<Rightarrow> 32 word \<Rightarrow> QueryArgs
    \<Rightarrow> error + NeighborQueryPerPointIterator" where
  "querySingle h lc query_point query_point_idx args0 =
     (case validateQueryArgs h lc args0 of
        Inl e \<Rightarrow> Inl e
      | Inr args \<Rightarrow>
          if args_mode args = mode_ball
          then Inr (BallIterator
                 (LinkCellQueryBallIterator_ctor h lc query_point query_point_idx
                    (args_r_max args) (args_r_min args) (args_exclude_ii args)))
          else if args_mode args = mode_nearest
          then Inr (NearestIterator
                 (LinkCellQueryIterator_ctor h lc query_point query_point_idx
                    (args_num_neighbors args) (args_r_max args) (args_r_min args)
                    (args_exclude_ii args)))
          else Inl (runtime_error ''Invalid query mode provided to generic query function.''))"

section \<open>CorrelationFunction: thread-local accumulation and reduction\<close>

text \<open>
  \<open>CorrelationFunction<T>\<close>. The value type \<open>T\<close> (\<open>double\<close> or
  \<open>complex<double>\<close> in the sources) is a type parameter. A \<open>util::ThreadStorage\<close> is
  the list of the arrays of the threads; \<open>local()\<close> is the entry of the calling thread.
\<close>

record 'a CorrelationFunction =
  m_box :: Box
  m_r_max :: float
  m_dr :: float
  m_frame_counter :: "32 word"
  m_reduce :: bool
  m_nbins :: "32 word"
  m_rdf_array :: "'a list"
  m_bin_counts :: "32 word list"
  m_r_array :: "float list"
  m_local_bin_counts :: "32 word list list"
  m_local_rdf_array :: "'a list list"

text \<open>
  \<open>int(floorf(r))\<close>: defined when the floor fits into a signed 32-bit integer. The
  center of bin \<open>i\<close> is computed in single precision, one rounding for each operation.
\<close>

definition floorf_to_int :: "float \<Rightarrow> error + 32 word" where
  "floorf_to_int r =
     (if - (2 ^ 31) \<le> \<lfloor>r\<rfloor> \<and> \<lfloor>r\<rfloor> < 2 ^ 31 then Inr (of_int \<lfloor>r\<rfloor>)
      else Inl undefined_conversion)"

definition bin_center :: "float \<Rightarrow> nat \<Rightarrow> float" where
  "bin_center dr i =
     (let r = float_mul (to_float (of_nat i)) dr;
          nextr = float_mul (to_float (of_nat (i + 1))) dr in
      float_div
        (float_mul (float_div 2 3)
           (float_sub (float_mul (float_mul nextr nextr) nextr) (float_mul (float_mul r r) r)))
        (float_sub (float_mul nextr nextr) (float_mul r r)))"

text \<open>
  The constructor. \<open>box0\<close> is the default-constructed \<open>box::Box()\<close> and \<open>n_threads\<close>
  the number of slots of the thread storages; both come from outside the sources.
\<close>

definition CorrelationFunction_ctor ::
  "Box \<Rightarrow> nat \<Rightarrow> float \<Rightarrow> float \<Rightarrow> error + ('a::field) CorrelationFunction" where
  "CorrelationFunction_ctor box0 n_threads r_max dr =
     (if dr \<le> 0 then Inl (invalid_argument ''CorrelationFunction requires dr to be positive.'')
      else if r_max \<le> 0
      then Inl (invalid_argument ''CorrelationFunction requires r_max to be positive.'')
      else if dr > r_max
      then Inl (invalid_argument
             ''CorrelationFunction requires dr must be less than or equal to r_max.'')
      else
        case floorf_to_int (float_div r_max dr) of Inl e \<Rightarrow> Inl e | Inr nbins \<Rightarrow>
        Inr \<lparr> m_box = box0, m_r_max = r_max, m_dr = dr, m_frame_counter = 0, m_reduce = True,
              m_nbins = nbins,
              m_rdf_array = replicate (unat nbins) 0,
              m_bin_counts = replicate (unat nbins) 0,
              m_r_array = map (bin_center dr) [0 ..< unat nbins],
              m_local_bin_counts = replicate n_threads (replicate (unat nbins) 0),
              m_local_rdf_array = replicate n_threads (replicate (unat nbins) 0) \<rparr>)"

text \<open>
  \<open>reduceCorrelationFunction\<close>. Both result arrays are cleared; then, for every bin,
  the entries of all threads are added up in the order of the storage, and the sum of
  the values is divided by the count under the guard \<open>if (m_bin_counts.get()[i])\<close>.
  The division itself is \<open>divide_by_count\<close>, which fails on a zero count. The result
  arrays hold \<open>m_nbins\<close> entries at least, or the writes leave them. The bins are
  independent of each other, so the order in which \<open>parallel_for\<close> visits them does
  not matter.
\<close>

definition divide_by_count :: "('a::field) \<Rightarrow> 32 word \<Rightarrow> error + 'a" where
  "divide_by_count v c = (if c = 0 then Inl division_by_zero else Inr (v / of_nat (unat c)))"

fun sum_bin :: "('b::plus) list list \<Rightarrow> nat \<Rightarrow> 'b \<Rightarrow> error + 'b" where
  "sum_bin [] i acc = Inr acc"
| "sum_bin (local_array # storage) i acc =
     (case array_get local_array i of Inl e \<Rightarrow> Inl e | Inr v \<Rightarrow> sum_bin storage i (acc + v))"

definition reduce_bin ::
  "32 word list list \<Rightarrow> ('a::field) list list \<Rightarrow> nat \<Rightarrow> error + (32 word \<times> 'a)" where
  "reduce_bin local_bins local_rdf i =
     (case sum_bin local_bins i 0 of Inl e \<Rightarrow> Inl e | Inr count \<Rightarrow>
      case sum_bin local_rdf i 0 of Inl e \<Rightarrow> Inl e | Inr value_sum \<Rightarrow>
      if count \<noteq> 0
      then (case divide_by_count value_sum count of Inl e \<Rightarrow> Inl e | Inr q \<Rightarrow> Inr (count, q))
      else Inr (count, value_sum))"

fun reduce_bins ::
  "32 word list list \<Rightarrow> ('a::field) list list \<Rightarrow> nat list
    \<Rightarrow> error + (32 word \<times> 'a) list" where
  "reduce_bins local_bins local_rdf [] = Inr []"
| "reduce_bins local_bins local_rdf (i # bins) =
     (case reduce_bin local_bins local_rdf i of Inl e \<Rightarrow> Inl e | Inr b \<Rightarrow>
      case reduce_bins local_bins local_rdf bins of Inl e \<Rightarrow> Inl e | Inr bs \<Rightarrow> Inr (b # bs))"

definition reduceCorrelationFunction ::
  "('a::field) CorrelationFunction \<Rightarrow> error + 'a CorrelationFunction" where
  "reduceCorrelationFunction cf =
     (let nbins = unat (m_nbins cf) in
      if length (m_bin_counts cf) < nbins \<or> length (m_rdf_array cf) < nbins
      then Inl out_of_bounds
      else
        case reduce_bins (m_local_bin_counts cf) (m_local_rdf_array cf) [0 ..< nbins] of
          Inl e \<Rightarrow> Inl e
        | Inr bs \<Rightarrow>
            Inr (cf\<lparr> m_bin_counts := map fst bs @ drop nbins (m_bin_counts cf),
                     m_rdf_array := map snd bs @ drop nbins (m_rdf_array cf) \<rparr>))"

text \<open>\<open>getRDF\<close>: reduce if the flag \<open>m_reduce\<close> is set, clear the flag, return the array.\<close>

definition getRDF ::
  "('a::field) CorrelationFunction \<Rightarrow> error + ('a CorrelationFunction \<times> 'a list)" where
  "getRDF cf =
     (case (if m_reduce cf = True then reduceCorrelationFunction cf else Inr cf) of
        Inl e \<Rightarrow> Inl e
      | Inr cf1 \<Rightarrow> let cf2 = cf1\<lparr> m_reduce := False \<rparr> in Inr (cf2, m_rdf_array cf2))"

text \<open>\<open>reset\<close>: every thread-local array is zeroed, the frame counter restarts.\<close>

definition reset :: "('a::field) CorrelationFunction \<Rightarrow> 'a CorrelationFunction" where
  "reset cf =
     cf\<lparr> m_local_rdf_array := map (map (\<lambda>v. 0)) (m_local_rdf_array cf),
         m_local_bin_counts := map (map (\<lambda>c. 0)) (m_local_bin_counts cf),
         m_frame_counter := 0, m_reduce := True \<rparr>"

text \<open>
  The conversion \<open>_mm_cvtt_ss2si\<close> of the branch compiled with SSE2: truncation towards
  zero, and the bit pattern \<open>0x80000000\<close> when the value does not fit into a signed
  32-bit integer. The result is stored in an \<open>unsigned int\<close>. The cast of the other
  branch gives the same value wherever it is defined.
\<close>

definition cvtt_ss2si :: "float \<Rightarrow> 32 word" where
  "cvtt_ss2si r =
     (if - (2 ^ 31) - 1 < r \<and> r < 2 ^ 31 then of_int (if r < 0 then \<lceil>r\<rceil> else \<lfloor>r\<rfloor>)
      else 0x80000000)"

definition local_update ::
  "'b list list \<Rightarrow> nat \<Rightarrow> nat \<Rightarrow> ('b \<Rightarrow> 'b) \<Rightarrow> error + 'b list list" where
  "local_update storage thread i f =
     (if thread < length storage \<and> i < length (storage ! thread)
      then Inr (storage[thread := (storage ! thread)[i := f (storage ! thread ! i)]])
      else Inl out_of_bounds)"

text \<open>
  The body of the lambda that \<open>accumulate\<close> hands to \<open>loopOverNeighbors\<close>, run by the
  thread \<open>thread\<close> for one bond. \<open>values\<close> and \<open>query_values\<close> are the arrays behind the
  two pointers.
\<close>

definition accumulate_bond ::
  "('a::field) list \<Rightarrow> 'a list \<Rightarrow> 'a CorrelationFunction \<Rightarrow> nat \<times> NeighborBond
    \<Rightarrow> error + 'a CorrelationFunction" where
  "accumulate_bond values query_values cf tb =
     (let thread = fst tb; neighbor_bond = snd tb;
          dr_inv = float_div 1 (m_dr cf);
          binr = float_mul (distance neighbor_bond) dr_inv;
          bin = cvtt_ss2si binr in
      if bin < m_nbins cf
      then
        case local_update (m_local_bin_counts cf) thread (unat bin) (\<lambda>c. c + 1) of
          Inl e \<Rightarrow> Inl e | Inr counts \<Rightarrow>
        case array_get values (unat (ref_id neighbor_bond)) of Inl e \<Rightarrow> Inl e | Inr v \<Rightarrow>
        case array_get query_values (unat (bond_id neighbor_bond)) of Inl e \<Rightarrow> Inl e | Inr qv \<Rightarrow>
        case local_update (m_local_rdf_array cf) thread (unat bin) (\<lambda>s. s + v * qv) of
          Inl e \<Rightarrow> Inl e | Inr totals \<Rightarrow>
        Inr (cf\<lparr> m_local_bin_counts := counts, m_local_rdf_array := totals \<rparr>)
      else Inr cf)"

text \<open>
  \<open>accumulate\<close>. \<open>loopOverNeighbors\<close> is not among the sources: it calls the lambda
  once for every bond of the neighbor list or of the query, each call on some thread.
  The parameter \<open>bonds\<close> is that sequence of calls, each bond with the thread that
  handles it; a thread writes to its own arrays only.
\<close>

fun accumulate_bonds ::
  "('a::field) list \<Rightarrow> 'a list \<Rightarrow> 'a CorrelationFunction \<Rightarrow> (nat \<times> NeighborBond) list
    \<Rightarrow> error + 'a CorrelationFunction" where
  "accumulate_bonds values query_values cf [] = Inr cf"
| "accumulate_bonds values query_values cf (tb # bonds) =
     (case accumulate_bond values query_values cf tb of
        Inl e \<Rightarrow> Inl e
      | Inr cf' \<Rightarrow> accumulate_bonds values query_values cf' bonds)"

definition accumulate ::
  "Box \<Rightarrow> ('a::field) list \<Rightarrow> 'a list \<Rightarrow> (nat \<times> NeighborBond) list \<Rightarrow> 'a CorrelationFunction
    \<Rightarrow> error + 'a CorrelationFunction" where
  "accumulate box values query_values bonds cf =
     (case accumulate_bonds values query_values (cf\<lparr> m_box := box \<rparr>) bonds of
        Inl e \<Rightarrow> Inl e
      | Inr cf' \<Rightarrow> Inr (cf'\<lparr> m_frame_counter := m_frame_counter cf' + 1, m_reduce := True \<rparr>))"

text \<open>
  \<open>accumulate\<close> as a member function that returns the exception it throws, if any,
  and the object as it is at that moment. \<open>neighbors\<close> is what \<open>loopOverNeighbors\<close>
  does before the first call of the lambda: it throws, as when the query arguments are
  refused, or it goes on with the bonds. The assignment to \<open>m_box\<close> comes first.
\<close>

definition accumulate_query ::
  "Box \<Rightarrow> ('a::field) list \<Rightarrow> 'a list \<Rightarrow> error + (nat \<times> NeighborBond) list
    \<Rightarrow> 'a CorrelationFunction \<Rightarrow> error option \<times> 'a CorrelationFunction" where
  "accumulate_query box values query_values neighbors cf =
     (let cf1 = cf\<lparr> m_box := box \<rparr> in
      case neighbors of
        Inl e \<Rightarrow> (Some e, cf1)
      | Inr bonds \<Rightarrow>
          (case accumulate_bonds values query_values cf1 bonds of
             Inl e \<Rightarrow> (Some e, cf1)
           | Inr cf2 \<Rightarrow>
               (None, cf2\<lparr> m_frame_counter := m_frame_counter cf2 + 1, m_reduce := True \<rparr>)))"

section \<open>RDF: reduceAndReturn\<close>

text \<open>
  The members of \<open>RDF\<close> that \<open>reduceAndReturn\<close> and the getters touch. The virtual
  \<open>reduce()\<close> is defined outside the sources: it is the parameter \<open>reduce\<close>, any
  function on the object. \<open>thing_to_return\<close> is a reference to a member, read after
  the call: the parameter \<open>thing\<close> selects it.
\<close>

record RDF =
  rdf_m_reduce :: bool
  m_pcf :: "float list"
  m_N_r :: "float list"
  m_histogram :: "32 word list"

definition reduceAndReturn :: "(RDF \<Rightarrow> RDF) \<Rightarrow> (RDF \<Rightarrow> 'b) \<Rightarrow> RDF \<Rightarrow> RDF \<times> 'b" where
  "reduceAndReturn reduce thing rdf =
     (let rdf1 = (if rdf_m_reduce rdf = True then reduce rdf else rdf);
          rdf2 = rdf1\<lparr> rdf_m_reduce := False \<rparr>
      in (rdf2, thing rdf2))"

definition RDF_getRDF :: "(RDF \<Rightarrow> RDF) \<Rightarrow> RDF \<Rightarrow> RDF \<times> float list" where
  "RDF_getRDF reduce rdf = reduceAndReturn reduce m_pcf rdf"

definition RDF_getNr :: "(RDF \<Rightarrow> RDF) \<Rightarrow> RDF \<Rightarrow> RDF \<times> float list" where
  "RDF_getNr reduce rdf = reduceAndReturn reduce m_N_r rdf"

section \<open>Invariants and example inputs\<close>

text \<open>
  The arrays of a \<open>CorrelationFunction\<close> have \<open>m_nbins\<close> entries each, as the
  constructor allocates them, and both thread storages have a slot for every thread.
\<close>

definition storage_ok :: "('a::field) CorrelationFunction \<Rightarrow> bool" where
  "storage_ok cf \<longleftrightarrow>
     list_all (\<lambda>l. length l = unat (m_nbins cf)) (m_local_bin_counts cf)
     \<and> list_all (\<lambda>l. length l = unat (m_nbins cf)) (m_local_rdf_array cf)
     \<and> length (m_local_bin_counts cf) = length (m_local_rdf_array cf)
     \<and> length (m_bin_counts cf) = unat (m_nbins cf)
     \<and> length (m_rdf_array cf) = unat (m_nbins cf)"

text \<open>The sums over the threads that the reduction forms for bin \<open>i\<close>.\<close>

definition merged_count :: "32 word list list \<Rightarrow> nat \<Rightarrow> 32 word" where
  "merged_count local_bins i = foldl (\<lambda>c l. c + l ! i) 0 local_bins"

definition merged_value :: "('a::field) list list \<Rightarrow> nat \<Rightarrow> 'a" where
  "merged_value local_rdf i = foldl (\<lambda>v l. v + l ! i) 0 local_rdf"

text \<open>
  A cubic box of side 10, a box that is thin along \<open>y\<close> and a wide 2D box; a point at
  the origin.
\<close>

definition cube10 :: Box where
  "cube10 = \<lparr> getNearestPlaneDistance = \<lparr> vec_x = 10, vec_y = 10, vec_z = 10 \<rparr>,
              is2D = False, wrap = (\<lambda>v. v) \<rparr>"

definition thin_box :: Box where
  "thin_box = \<lparr> getNearestPlaneDistance = \<lparr> vec_x = 10, vec_y = 1 / 2, vec_z = 3 \<rparr>,
                is2D = False, wrap = (\<lambda>v. v) \<rparr>"

definition wide_box :: Box where
  "wide_box = \<lparr> getNearestPlaneDistance = \<lparr> vec_x = 65536, vec_y = 65536, vec_z = 1 \<rparr>,
                is2D = True, wrap = (\<lambda>v. v) \<rparr>"

definition origin :: "float vec3" where
  "origin = \<lparr> vec_x = 0, vec_y = 0, vec_z = 0 \<rparr>"

definition getCell_first :: "Box \<Rightarrow> 32 word vec3 \<Rightarrow> float vec3 \<Rightarrow> 32 word" where
  "getCell_first box celldim p = 0"

text \<open>
  A correlation function with two bins and two threads after one frame: three bonds
  fell into bin 0, none into bin 1.
\<close>

definition cf_example :: "real CorrelationFunction" where
  "cf_example =
     \<lparr> m_box = cube10, m_r_max = 2, m_dr = 1, m_frame_counter = 1, m_reduce = True,
       m_nbins = 2, m_rdf_array = [0, 0], m_bin_counts = [0, 0], m_r_array = [11184811 / 16777216, 13048947 / 8388608],
       m_local_bin_counts = [[2, 0], [1, 0]], m_local_rdf_array = [[3, 0], [3, 0]] \<rparr>"

definition cf_example_reduced :: "real CorrelationFunction" where
  "cf_example_reduced =
     cf_example\<lparr> m_reduce := False, m_rdf_array := [2, 0], m_bin_counts := [3, 0] \<rparr>"

definition rdf_example :: RDF where
  "rdf_example = \<lparr> rdf_m_reduce = True, m_pcf = [0, 0], m_N_r = [0, 0], m_histogram = [3, 0] \<rparr>"

definition reduce_example :: "RDF \<Rightarrow> RDF" where
  "reduce_example rdf = rdf\<lparr> m_pcf := map (\<lambda>c. real (unat c) / 2) (m_histogram rdf) \<rparr>"

definition bond_example :: NeighborBond where
  "bond_example = \<lparr> bond_id = 0, ref_id = 1, distance = 3 / 2 \<rparr>"



section \<open>Sequences of calls on a correlation function\<close>

text \<open>
  The calls the class offers after construction, and a run of them that stops at the
  first failure. \<open>total_bonds\<close> counts the bonds that the calls hand to the lambda.
\<close>

datatype 'a cf_call =
    Accumulate Box "'a list" "'a list" "(nat \<times> NeighborBond) list"
  | Reset
  | GetRDF

fun run_call :: "('a::field) CorrelationFunction \<Rightarrow> 'a cf_call \<Rightarrow> error + 'a CorrelationFunction" where
  "run_call cf (Accumulate box values query_values bonds) = accumulate box values query_values bonds cf"
| "run_call cf Reset = Inr (reset cf)"
| "run_call cf GetRDF = (case getRDF cf of Inl e \<Rightarrow> Inl e | Inr r \<Rightarrow> Inr (fst r))"

fun run_calls ::
  "('a::field) CorrelationFunction \<Rightarrow> 'a cf_call list \<Rightarrow> error + 'a CorrelationFunction" where
  "run_calls cf [] = Inr cf"
| "run_calls cf (c # calls) =
     (case run_call cf c of Inl e \<Rightarrow> Inl e | Inr cf' \<Rightarrow> run_calls cf' calls)"

fun bonds_of :: "'a cf_call \<Rightarrow> nat" where
  "bonds_of (Accumulate box values query_values bonds) = length bonds"
| "bonds_of Reset = 0"
| "bonds_of GetRDF = 0"

definition total_bonds :: "'a cf_call list \<Rightarrow> nat" where
  "total_bonds calls = sum_list (map bonds_of calls)"

text \<open>
  The state of the thread-local arrays while no counter has wrapped: the counts add up
  to at most \<open>n\<close>, and a bin of a thread with count zero holds the value zero.
\<close>

definition total_count :: "32 word list list \<Rightarrow> nat" where
  "total_count local_bins = sum_list (map (\<lambda>l. sum_list (map unat l)) local_bins)"

definition counted :: "nat \<Rightarrow> ('a::field) CorrelationFunction \<Rightarrow> bool" where
  "counted n cf \<longleftrightarrow>
     storage_ok cf \<and> total_count (m_local_bin_counts cf) \<le> n
     \<and> (\<forall>t < length (m_local_bin_counts cf). \<forall>i < unat (m_nbins cf).
           m_local_bin_counts cf ! t ! i = 0 \<longrightarrow> m_local_rdf_array cf ! t ! i = 0)"

text \<open>
  A correlation function with one bin and one thread as the constructor leaves it, and
  the state after \<open>2^32\<close> bonds of distance 0 have been accumulated into its bin.
\<close>

definition bond_zero :: NeighborBond where
  "bond_zero = \<lparr> bond_id = 0, ref_id = 0, distance = 0 \<rparr>"

definition cf_fresh :: "real CorrelationFunction" where
  "cf_fresh =
     \<lparr> m_box = cube10, m_r_max = 1, m_dr = 1, m_frame_counter = 0, m_reduce = True,
       m_nbins = 1, m_rdf_array = [0], m_bin_counts = [0], m_r_array = [11184811 / 16777216],
       m_local_bin_counts = [[0]], m_local_rdf_array = [[0]] \<rparr>"

definition cf_wrapped :: "real CorrelationFunction" where
  "cf_wrapped = cf_fresh\<lparr> m_frame_counter := 1, m_local_bin_counts := [[0]],
                          m_local_rdf_array := [[4294967296]] \<rparr>"

definition cf_wrapped_reduced :: "real CorrelationFunction" where
  "cf_wrapped_reduced = cf_wrapped\<lparr> m_bin_counts := [0], m_rdf_array := [4294967296] \<rparr>"

text \<open>Two bins, one thread: the fresh state, and the state after one bond in bin 0.\<close>

definition cf_two_fresh :: "real CorrelationFunction" where
  "cf_two_fresh =
     \<lparr> m_box = cube10, m_r_max = 2, m_dr = 1, m_frame_counter = 0, m_reduce = True,
       m_nbins = 2, m_rdf_array = [0, 0], m_bin_counts = [0, 0], m_r_array = [11184811 / 16777216, 13048947 / 8388608],
       m_local_bin_counts = [[0, 0]], m_local_rdf_array = [[0, 0]] \<rparr>"

definition cf_two :: "real CorrelationFunction" where
  "cf_two = cf_two_fresh\<lparr> m_frame_counter := 1, m_local_bin_counts := [[1, 0]],
                          m_local_rdf_array := [[1, 0]] \<rparr>"

definition cf_two_reduced :: "real CorrelationFunction" where
  "cf_two_reduced = cf_two\<lparr> m_bin_counts := [1, 0], m_rdf_array := [1, 0] \<rparr>"

text \<open>
  A 2D grid of 4 by 4 by 1 cells. \<open>getMultiIndex\<close> and \<open>coordToIndex\<close> are not among
  the sources; the instances are the row-major multi-index of an index in an array of
  the given shape, and the layout of the cells that the comment in \<open>indexToCoord\<close>
  names, in which \<open>x\<close> runs fastest: cell \<open>(x, y, z)\<close> has the index \<open>x + 4 y + 16 z\<close>.
\<close>

definition getMultiIndex_rows :: "32 word list \<Rightarrow> 32 word \<Rightarrow> 32 word list" where
  "getMultiIndex_rows shape x =
     [x div (shape ! 1 * shape ! 2), (x div shape ! 2) mod shape ! 1, x mod shape ! 2]"

definition coordToIndex_flat :: "int \<Rightarrow> int \<Rightarrow> int \<Rightarrow> 32 word" where
  "coordToIndex_flat x y z = word_of_int (x + 4 * y + 16 * z)"

definition flat_box :: Box where
  "flat_box = \<lparr> getNearestPlaneDistance = \<lparr> vec_x = 20, vec_y = 20, vec_z = 1 \<rparr>,
                is2D = True, wrap = (\<lambda>v. v) \<rparr>"

definition lc_flat :: LinkCell where
  "lc_flat =
     \<lparr> LinkCell.m_box = flat_box, m_points = [origin], m_n_points = 1, m_cell_width = 5,
       m_celldim = \<lparr> vec_x = 4, vec_y = 4, vec_z = 1 \<rparr>, m_size = 16, m_Nc = 16,
       m_cell_list = 0xffffffff # 0 # replicate 15 0xffffffff,
       m_cell_neighbors = Map.empty \<rparr>"

section \<open>Runs of the iterators\<close>

text \<open>
  The points of a cell as a linked list in the cell list: \<open>chain cl cur js\<close> holds when
  following the links from position \<open>cur\<close> visits the points \<open>js\<close> and then the
  terminator. \<open>passes\<close> is the test of the iterators on a point and \<open>bond_of\<close> the bond
  they make of it.
\<close>

inductive chain :: "32 word list \<Rightarrow> 32 word \<Rightarrow> 32 word list \<Rightarrow> bool" for cl where
  chain_end: "unat cur < length cl \<Longrightarrow> cl ! unat cur = LINK_CELL_TERMINATOR \<Longrightarrow> chain cl cur []"
| chain_step: "unat cur < length cl \<Longrightarrow> cl ! unat cur = j \<Longrightarrow> j \<noteq> LINK_CELL_TERMINATOR
     \<Longrightarrow> chain cl j js \<Longrightarrow> chain cl cur (j # js)"

definition passes :: "'a LinkCellIterator_scheme \<Rightarrow> 32 word \<Rightarrow> bool" where
  "passes it j \<longleftrightarrow>
     \<not> (m_exclude_ii it \<and> m_query_point_idx it = j)
     \<and> r_sq_of it (m_points (m_linkcell it) ! unat j)
           < float_mul (LinkCellIterator.m_r_max it) (LinkCellIterator.m_r_max it)
     \<and> r_sq_of it (m_points (m_linkcell it) ! unat j) \<ge> float_mul (m_r_min it) (m_r_min it)"

definition bond_of :: "'a LinkCellIterator_scheme \<Rightarrow> 32 word \<Rightarrow> NeighborBond" where
  "bond_of it j =
     \<lparr> bond_id = m_query_point_idx it, ref_id = j,
       distance = to_float (sqrt (r_sq_of it (m_points (m_linkcell it) ! unat j))) \<rparr>"

text \<open>
  The shell iterator after \<open>n\<close> increments from the start, and the index at which
  shell \<open>r\<close> begins. \<open>shells_ok\<close> is what the model asks of the parameter \<open>cell_shell\<close>:
  shell 0 is the origin cell alone and no shell is empty.
\<close>

definition zero_offset :: "int vec3" where
  "zero_offset = \<lparr> vec_x = 0, vec_y = 0, vec_z = 0 \<rparr>"

definition shells_ok :: "LinkCell_h \<Rightarrow> bool \<Rightarrow> bool" where
  "shells_ok h b \<longleftrightarrow> cell_shell h b 0 = [zero_offset] \<and> (\<forall>r. cell_shell h b r \<noteq> [])"

definition shell_pos :: "LinkCell_h \<Rightarrow> bool \<Rightarrow> nat \<Rightarrow> IteratorCellShell" where
  "shell_pos h b n = (shell_incr h ^^ n) (IteratorCellShell_ctor 0 b)"

definition shell_start :: "LinkCell_h \<Rightarrow> bool \<Rightarrow> nat \<Rightarrow> nat" where
  "shell_start h b r = (\<Sum>k < r. length (cell_shell h b k))"

text \<open>
  The cell that an iterator looks at after \<open>n\<close> increments, whether it is then seen
  for the first time, and the test that ends the ball query. \<open>ball_at\<close> is the state of
  a ball iterator at increment \<open>n\<close>; \<open>all_out\<close> lists the bonds of the cells seen for
  the first time before increment \<open>N\<close>.
\<close>

definition query_cell :: "LinkCell_h \<Rightarrow> 'a LinkCellIterator_scheme \<Rightarrow> int vec3" where
  "query_cell h it = point_cell_of h (m_linkcell it) (m_query_point it)"

definition cell_at :: "LinkCell_h \<Rightarrow> 'a LinkCellIterator_scheme \<Rightarrow> nat \<Rightarrow> 32 word" where
  "cell_at h it n =
     (let p = shell_pos h (m_is2D (m_neigh_cell_iter it)) n in
      getCellIndex h (m_celldim (m_linkcell it))
        (vec_plus (query_cell h it) (cell_shell h (m_is2D p) (m_range p) ! m_offset p)))"

definition is_new :: "LinkCell_h \<Rightarrow> 'a LinkCellIterator_scheme \<Rightarrow> nat \<Rightarrow> bool" where
  "is_new h it n \<longleftrightarrow> cell_at h it n \<notin> cell_at h it ` {..<n}"

definition beyond :: "LinkCellQueryBallIterator \<Rightarrow> nat \<Rightarrow> bool" where
  "beyond it r \<longleftrightarrow>
     float_mul (to_float (of_int (int r - m_extra_search_width it))) (getCellWidth (m_linkcell it))
       > LinkCellIterator.m_r_max it"

definition ball_at ::
  "LinkCell_h \<Rightarrow> LinkCellQueryBallIterator \<Rightarrow> nat \<Rightarrow> 32 word \<Rightarrow> 32 word set
    \<Rightarrow> LinkCellQueryBallIterator" where
  "ball_at h it0 n cur S =
     it0\<lparr> m_neigh_cell_iter := shell_pos h (m_is2D (m_neigh_cell_iter it0)) n,
          m_cell_iter := cur, m_searched_cells := S \<rparr>"

definition cell_out ::
  "(32 word \<Rightarrow> 32 word list) \<Rightarrow> 'a LinkCellIterator_scheme \<Rightarrow> 32 word \<Rightarrow> NeighborBond list" where
  "cell_out bk it c = map (bond_of it) (filter (passes it) (bk c))"

definition rest_out ::
  "LinkCell_h \<Rightarrow> (32 word \<Rightarrow> 32 word list) \<Rightarrow> 'a LinkCellIterator_scheme \<Rightarrow> nat \<Rightarrow> nat
    \<Rightarrow> NeighborBond list" where
  "rest_out h bk it n N =
     concat (map (\<lambda>m. cell_out bk it (cell_at h it m)) (filter (is_new h it) [Suc n ..< N]))"

definition ball_setup ::
  "LinkCell_h \<Rightarrow> (32 word \<Rightarrow> 32 word list) \<Rightarrow> LinkCellQueryBallIterator \<Rightarrow> nat \<Rightarrow> bool" where
  "ball_setup h bk it0 N \<longleftrightarrow>
     shells_ok h (m_is2D (m_neigh_cell_iter it0))
     \<and> 0 < N
     \<and> beyond it0 (m_range (shell_pos h (m_is2D (m_neigh_cell_iter it0)) N))
     \<and> (\<forall>m. 0 < m \<and> m < N \<longrightarrow> \<not> beyond it0 (m_range (shell_pos h (m_is2D (m_neigh_cell_iter it0)) m)))
     \<and> (\<forall>m < N. chain (m_cell_list (m_linkcell it0)) (itercell (m_linkcell it0) (cell_at h it0 m))
                    (bk (cell_at h it0 m))
                 \<and> (\<forall>j \<in> set (bk (cell_at h it0 m)). unat j < length (m_points (m_linkcell it0))))
     \<and> \<not> m_finished it0"

definition ball_ready ::
  "LinkCell_h \<Rightarrow> (32 word \<Rightarrow> 32 word list) \<Rightarrow> LinkCellQueryBallIterator \<Rightarrow> nat
    \<Rightarrow> LinkCellQueryBallIterator \<Rightarrow> 32 word set \<Rightarrow> NeighborBond list \<Rightarrow> bool" where
  "ball_ready h bk it0 N it S out \<longleftrightarrow>
     (\<exists>n cur js. n < N \<and> it = ball_at h it0 n cur S
        \<and> insert (cell_at h it0 n) S = cell_at h it0 ` {..n}
        \<and> chain (m_cell_list (m_linkcell it0)) cur js
        \<and> (\<forall>j \<in> set js. unat j < length (m_points (m_linkcell it0)))
        \<and> out = map (bond_of it0) (filter (passes it0) js) @ rest_out h bk it0 n N)"

definition all_out ::
  "LinkCell_h \<Rightarrow> (32 word \<Rightarrow> 32 word list) \<Rightarrow> 'a LinkCellIterator_scheme \<Rightarrow> nat
    \<Rightarrow> NeighborBond list" where
  "all_out h bk it N =
     concat (map (\<lambda>m. cell_out bk it (cell_at h it m)) (filter (is_new h it) [0 ..< N]))"

text \<open>
  The points of cell \<open>c\<close> among the points \<open>i, ..., n - 1\<close>, in increasing order, and
  the cell list in which every cell is linked to them.
\<close>

definition bucket_from ::
  "(float vec3 \<Rightarrow> 32 word) \<Rightarrow> float vec3 list \<Rightarrow> nat \<Rightarrow> nat \<Rightarrow> 32 word \<Rightarrow> 32 word list" where
  "bucket_from g points n i c = map of_nat (filter (\<lambda>j. g (points ! j) = c) [i ..< n])"

definition cells_linked ::
  "(float vec3 \<Rightarrow> 32 word) \<Rightarrow> float vec3 list \<Rightarrow> 32 word \<Rightarrow> nat \<Rightarrow> nat \<Rightarrow> 32 word list \<Rightarrow> bool" where
  "cells_linked g ps n K i cl \<longleftrightarrow>
     length cl = unat n + K
     \<and> (\<forall>c. unat c < K \<longrightarrow> chain cl (n + c) (bucket_from g ps (unat n) i c))"




text \<open>
  The state of a nearest-neighbor iterator at increment \<open>n\<close>, the lower bound it
  uses for early termination, and the buffer that the search loop builds from the
  cells seen for the first time: \<open>knn_scan\<close> adds the bonds of one cell, sorts, and
  stops when there are \<open>k\<close> bonds and the \<open>k\<close>-th is closer than the bound of the
  next cell.
\<close>

definition knn_at ::
  "LinkCell_h \<Rightarrow> LinkCellQueryIterator \<Rightarrow> nat \<Rightarrow> 32 word \<Rightarrow> 32 word set \<Rightarrow> NeighborBond list
    \<Rightarrow> LinkCellQueryIterator" where
  "knn_at h it0 n cur S buf =
     it0\<lparr> m_neigh_cell_iter := shell_pos h (m_is2D (m_neigh_cell_iter it0)) n,
          m_cell_iter := cur, m_searched_cells := S, m_current_neighbors := buf \<rparr>"

definition knn_bound :: "'a LinkCellIterator_scheme \<Rightarrow> nat \<Rightarrow> float" where
  "knn_bound it r = float_mul (to_float (of_int (int r - 1))) (getCellWidth (m_linkcell it))"

fun knn_scan ::
  "(nat \<Rightarrow> NeighborBond list) \<Rightarrow> (nat \<Rightarrow> float) \<Rightarrow> nat \<Rightarrow> NeighborBond list \<Rightarrow> nat \<Rightarrow> nat list
    \<Rightarrow> NeighborBond list" where
  "knn_scan outf bound k buf m [] = sort_key distance (buf @ outf m)"
| "knn_scan outf bound k buf m (m' # ms) =
     (let buf2 = sort_key distance (buf @ outf m) in
      if k \<le> length buf2 \<and> distance (buf2 ! (k - 1)) < bound m' then buf2
      else knn_scan outf bound k buf2 m' ms)"

definition knn_setup ::
  "LinkCell_h \<Rightarrow> (32 word \<Rightarrow> 32 word list) \<Rightarrow> LinkCellQueryIterator \<Rightarrow> nat \<Rightarrow> IteratorCellShell
    \<Rightarrow> bool" where
  "knn_setup h bk it0 N stop \<longleftrightarrow>
     shells_ok h (m_is2D (m_neigh_cell_iter it0))
     \<and> shell_pos h (m_is2D (m_neigh_cell_iter it0)) N = stop
     \<and> (\<forall>m < N. shell_pos h (m_is2D (m_neigh_cell_iter it0)) m \<noteq> stop)
     \<and> (\<forall>m < N. chain (m_cell_list (m_linkcell it0)) (itercell (m_linkcell it0) (cell_at h it0 m))
                    (bk (cell_at h it0 m))
                 \<and> (\<forall>j \<in> set (bk (cell_at h it0 m)). unat j < length (m_points (m_linkcell it0)))
                 \<and> itercell (m_linkcell it0) (cell_at h it0 m) \<noteq> LINK_CELL_TERMINATOR)
     \<and> m_num_neighbors it0 \<noteq> 0"

definition within_r_max :: "'a LinkCellIterator_scheme \<Rightarrow> NeighborBond \<Rightarrow> bool" where
  "within_r_max it b \<longleftrightarrow> \<not> LinkCellIterator.m_r_max it < distance b"

definition knn_buffer ::
  "LinkCell_h \<Rightarrow> (32 word \<Rightarrow> 32 word list) \<Rightarrow> LinkCellQueryIterator \<Rightarrow> nat \<Rightarrow> NeighborBond list" where
  "knn_buffer h bk it0 N =
     (if N = 0 then []
      else knn_scan (\<lambda>m. cell_out bk it0 (cell_at h it0 m))
              (\<lambda>m. knn_bound it0 (m_range (shell_pos h (m_is2D (m_neigh_cell_iter it0)) m)))
              (unat (m_num_neighbors it0)) [] 0 (filter (is_new h it0) [Suc 0 ..< N]))"

text \<open>
  An instance of the parameters for the examples: cell coordinates by division of the
  fractional position, cell indices with \<open>x\<close> running fastest and periodic wrap, the
  shells of Chebyshev radius \<open>r\<close>, an extra search width of 1 unless \<open>r_max\<close> is the
  cell width, and a validation that refuses \<open>r_max \<le> r_min\<close>. \<open>lc_cube\<close> is the cell
  list that the constructor builds for one point at the origin of the cubic box with
  a cell width of 5.
\<close>

definition grid_coord :: "float \<Rightarrow> 32 word \<Rightarrow> float \<Rightarrow> 32 word" where
  "grid_coord L d x = word_of_int (\<lfloor>(x / L + 1 / 2) * real (unat d)\<rfloor> mod int (unat d))"

definition grid_index :: "32 word vec3 \<Rightarrow> int vec3 \<Rightarrow> 32 word" where
  "grid_index celldim c =
     word_of_int
       (vec_x c mod uint (vec_x celldim)
        + uint (vec_x celldim)
          * (vec_y c mod uint (vec_y celldim)
             + uint (vec_y celldim) * (vec_z c mod uint (vec_z celldim))))"

definition grid_shell :: "bool \<Rightarrow> nat \<Rightarrow> int vec3 list" where
  "grid_shell is_2D r =
     [\<lparr> vec_x = x, vec_y = y, vec_z = z \<rparr>.
        z \<leftarrow> (if is_2D then [0] else [- int r .. int r]), y \<leftarrow> [- int r .. int r],
        x \<leftarrow> [- int r .. int r], max \<bar>x\<bar> (max \<bar>y\<bar> \<bar>z\<bar>) = int r]"

definition grid_h :: LinkCell_h where
  "grid_h =
     \<lparr> getCellCoord = (\<lambda>box celldim p.
          \<lparr> vec_x = grid_coord (vec_x (getNearestPlaneDistance box)) (vec_x celldim) (vec_x p),
            vec_y = grid_coord (vec_y (getNearestPlaneDistance box)) (vec_y celldim) (vec_y p),
            vec_z = grid_coord (vec_z (getNearestPlaneDistance box)) (vec_z celldim) (vec_z p) \<rparr>),
       getCellIndex = grid_index,
       cell_shell = grid_shell,
       search_width = (\<lambda>lc r_max. if r_max = getCellWidth lc then 0 else 1),
       validateQueryArgs = (\<lambda>lc args.
          if args_r_max args \<le> 0 \<or> args_r_min args < 0 \<or> args_r_max args \<le> args_r_min args
          then Inl (invalid_argument ''r_max and r_min must be nonnegative and r_min < r_max.'')
          else Inr args) \<rparr>"

definition lc_cube :: LinkCell where
  "lc_cube =
     \<lparr> LinkCell.m_box = cube10, m_points = [origin], m_n_points = 1, m_cell_width = 5,
       m_celldim = \<lparr> vec_x = 2, vec_y = 2, vec_z = 2 \<rparr>, m_size = 8, m_Nc = 8,
       m_cell_list = [0xffffffff, 0xffffffff, 0xffffffff, 0xffffffff, 0xffffffff, 0xffffffff,
                      0xffffffff, 0xffffffff, 0],
       m_cell_neighbors = Map.empty \<rparr>"

definition args_bad :: QueryArgs where
  "args_bad = \<lparr> args_mode = mode_ball, args_num_neighbors = 0, args_r_max = 1, args_r_min = 2,
                args_exclude_ii = False \<rparr>"

section \<open>Properties of the cell grid\<close>

lemmas float_eval =
  float_add_def float_sub_def float_mul_def float_div_def to_float_def float_exponent_def
  ilog2.simps pow2_def round_even_def Let_def

lemma pow2_pos: "0 < pow2 e"
  by (simp add: pow2_def)

lemma pow2_add: "pow2 (a + b) = pow2 a * pow2 b"
proof -
  have p: "pow2 e = 2 powi e" for e
    by (simp add: pow2_def power_int_def inverse_eq_divide power_one_over)
  show ?thesis unfolding p by (simp add: power_int_add)
qed

lemma ilog2_le: "0 < n \<Longrightarrow> 2 ^ ilog2 n \<le> n"
proof (induction n rule: ilog2.induct)
  case (1 n)
  show ?case
  proof (cases "n < 2")
    case True
    then show ?thesis using 1(2) by (simp add: ilog2.simps)
  next
    case False
    then have "2 ^ ilog2 (n div 2) \<le> n div 2" using 1(1) by simp
    then have "2 * 2 ^ ilog2 (n div 2) \<le> 2 * (n div 2)" by simp
    also have "\<dots> \<le> n" by simp
    finally show ?thesis using False by (subst ilog2.simps) simp
  qed
qed

lemma round_even_ge: "\<lfloor>r\<rfloor> \<le> round_even r"
  by (simp add: round_even_def Let_def)


lemma to_float_ge_one:
  assumes "1 \<le> x"
  shows "1 \<le> to_float x"
proof -
  define n where "n = nat \<lfloor>x\<rfloor>"
  define e where "e = int (ilog2 n)"
  define u where "u = pow2 (e - 23)"
  have n: "0 < n" "real n \<le> x" using assms unfolding n_def by (simp_all add: le_floor_iff)
  have ex: "float_exponent \<bar>x\<bar> = e" using assms unfolding float_exponent_def e_def n_def by simp
  have "pow2 e = 2 ^ ilog2 n" unfolding e_def pow2_def by simp
  also have "\<dots> \<le> real n" using ilog2_le[OF n(1)]
    by (metis of_nat_le_iff of_nat_numeral of_nat_power)
  finally have pe: "pow2 e \<le> x" using n(2) by simp
  have e1: "1 \<le> pow2 e" unfolding e_def pow2_def by simp
  have up: "0 < u" unfolding u_def by (rule pow2_pos)
  have split: "pow2 e = u * 2 ^ 23"
    using pow2_add[of "e - 23" 23] unfolding u_def by (simp add: pow2_def)
  then have "2 ^ 23 \<le> x / u" using pe up by (simp add: le_divide_eq mult.commute)
  then have "(2 ^ 23 :: int) \<le> \<lfloor>x / u\<rfloor>" by (simp add: le_floor_iff)
  then have "(2 ^ 23 :: int) \<le> round_even (x / u)" using round_even_ge[of "x / u"] by linarith
  then have "(2 ^ 23 :: real) \<le> of_int (round_even (x / u))"
    by (metis of_int_le_iff of_int_numeral of_int_power)
  then have "2 ^ 23 * u \<le> of_int (round_even (x / u)) * u" using up by simp
  then have "pow2 e \<le> of_int (round_even (x / u)) * u"
    using split by (simp add: mult.commute)
  moreover have "to_float x = of_int (round_even (x / u)) * u"
    using assms unfolding to_float_def ex u_def Let_def by simp
  ultimately show ?thesis using e1 by linarith
qed

lemma float_to_uint_defined:
  assumes "- 1 < r" "r < 2 ^ 32"
  shows "float_to_uint r = Inr (of_nat (nat \<lfloor>r\<rfloor>))"
    and "unat (of_nat (nat \<lfloor>r\<rfloor>) :: 32 word) = nat \<lfloor>r\<rfloor>"
proof -
  show "float_to_uint r = Inr (of_nat (nat \<lfloor>r\<rfloor>))"
    using assms by (simp add: float_to_uint_def)
  have "\<lfloor>r\<rfloor> < 2 ^ 32" using assms(2) by (simp add: floor_less_iff)
  then have "nat \<lfloor>r\<rfloor> < 2 ^ 32" by (cases "0 \<le> \<lfloor>r\<rfloor>") (simp_all add: nat_less_iff)
  then show "unat (of_nat (nat \<lfloor>r\<rfloor>) :: 32 word) = nat \<lfloor>r\<rfloor>"
    by (simp add: unat_of_nat del: of_nat_nat)
qed

lemma unat_clamp_one: "unat (if d = 0 then 1 else d :: 32 word) = max 1 (unat d)"
  by (auto simp: unat_eq_0 max_def dest: unat_gt_0[THEN iffD2])

lemma word_product_pos:
  fixes a b c :: "32 word"
  assumes "a \<noteq> 0" "b \<noteq> 0" "c \<noteq> 0" "unat a * unat b * unat c < 2 ^ 32"
  shows "1 \<le> unat (a * b * c)"
proof -
  have ab: "unat a * unat b < 2 ^ 32"
  proof -
    have "0 < unat c" using assms(3) by (simp add: unat_gt_0)
    then have "unat a * unat b \<le> unat a * unat b * unat c" by simp
    then show ?thesis using assms(4) by (rule le_less_trans)
  qed
  have 1: "unat (a * b) = unat a * unat b" using ab by (simp add: unat_word_ariths)
  have 2: "unat (a * b * c) = unat a * unat b * unat c"
    using assms(4) 1 by (simp add: unat_word_ariths)
  have "0 < unat a" "0 < unat b" "0 < unat c" using assms(1,2,3) by (simp_all add: unat_gt_0)
  then have "0 < unat a * unat b * unat c" by simp
  then show ?thesis unfolding 2 by simp
qed

text \<open>
  C8, as stated, fails for the number of cells: it is the 32-bit product of the three
  dimensions, and it wraps. A 2D box with plane distances 65536 and a cell width of 1
  passes the half-thickness check and gets 65536 by 65536 by 1 cells; their product is
  0 in 32 bits, and the constructor raises the error for a grid without cells.
\<close>

theorem computeDimensions_cell_count_counterexample:
  "\<not> box_too_small wide_box 1
   \<and> computeDimensions wide_box 1 = Inr \<lparr> vec_x = 65536, vec_y = 65536, vec_z = 1 \<rparr>
   \<and> (65536 :: 32 word) * 65536 * 1 = 0
   \<and> LinkCell_ctor getCell_first wide_box 1 [origin] 1
       = Inl (runtime_error ''At least one cell must be present.'')"
proof -
  have d: "computeDimensions wide_box 1 = Inr \<lparr> vec_x = 65536, vec_y = 65536, vec_z = 1 \<rparr>"
    by (simp add: computeDimensions_def wide_box_def quotient_to_uint_def float_to_uint_def
          float_eval)
  have b: "\<not> box_too_small wide_box 1" by (simp add: box_too_small_def wide_box_def)
  have w: "(65536 :: 32 word) * 65536 * 1 = 0" by simp
  have i: "is2D wide_box" by (simp add: wide_box_def)
  have "LinkCell_ctor getCell_first wide_box 1 [origin] 1
       = Inl (runtime_error ''At least one cell must be present.'')"
    unfolding LinkCell_ctor_def d using b i by (simp add: Let_def)
  then show ?thesis using d b w by simp
qed

text \<open>
  C8, amended. Whenever the conversions of \<open>computeDimensions\<close> are defined (a cell
  width other than zero, single-precision quotients above \<open>-1\<close> and below \<open>2^32\<close>), it
  returns without an error the truncation of the single-precision quotient of each
  plane distance and the cell width, raised to 1 where the truncation is 0; in 2D the
  \<open>z\<close> dimension is 1. No dimension is 0, and the number of cells, the 32-bit product
  of the three, is at least 1 as long as the product of the dimensions is below
  \<open>2^32\<close>. The half-thickness check is not needed.
\<close>

theorem computeDimensions_clamped:
  assumes cw: "cell_width \<noteq> 0"
    and Lx: "- 1 < float_div (vec_x (getNearestPlaneDistance box)) cell_width"
            "float_div (vec_x (getNearestPlaneDistance box)) cell_width < 2 ^ 32"
    and Ly: "- 1 < float_div (vec_y (getNearestPlaneDistance box)) cell_width"
            "float_div (vec_y (getNearestPlaneDistance box)) cell_width < 2 ^ 32"
    and Lz: "is2D box \<or> (- 1 < float_div (vec_z (getNearestPlaneDistance box)) cell_width
                         \<and> float_div (vec_z (getNearestPlaneDistance box)) cell_width < 2 ^ 32)"
  shows "\<exists>celldim. computeDimensions box cell_width = Inr celldim
     \<and> unat (vec_x celldim)
         = max 1 (nat \<lfloor>float_div (vec_x (getNearestPlaneDistance box)) cell_width\<rfloor>)
     \<and> unat (vec_y celldim)
         = max 1 (nat \<lfloor>float_div (vec_y (getNearestPlaneDistance box)) cell_width\<rfloor>)
     \<and> unat (vec_z celldim) =
          (if is2D box then 1
           else max 1 (nat \<lfloor>float_div (vec_z (getNearestPlaneDistance box)) cell_width\<rfloor>))
     \<and> vec_x celldim \<noteq> 0 \<and> vec_y celldim \<noteq> 0 \<and> vec_z celldim \<noteq> 0
     \<and> (unat (vec_x celldim) * unat (vec_y celldim) * unat (vec_z celldim) < 2 ^ 32
          \<longrightarrow> 1 \<le> unat (vec_x celldim * vec_y celldim * vec_z celldim))"
proof -
  let ?L = "getNearestPlaneDistance box"
  note fx = float_to_uint_defined[OF Lx] and fy = float_to_uint_defined[OF Ly]
  have "\<exists>celldim. computeDimensions box cell_width = Inr celldim
     \<and> unat (vec_x celldim) = max 1 (nat \<lfloor>float_div (vec_x ?L) cell_width\<rfloor>)
     \<and> unat (vec_y celldim) = max 1 (nat \<lfloor>float_div (vec_y ?L) cell_width\<rfloor>)
     \<and> unat (vec_z celldim) =
          (if is2D box then 1 else max 1 (nat \<lfloor>float_div (vec_z ?L) cell_width\<rfloor>))
     \<and> vec_x celldim \<noteq> 0 \<and> vec_y celldim \<noteq> 0 \<and> vec_z celldim \<noteq> 0"
  proof (cases "is2D box")
    case True
    then show ?thesis using cw
      by (simp add: computeDimensions_def quotient_to_uint_def Let_def fx fy unat_clamp_one
            del: of_nat_nat)
  next
    case False
    with Lz have z: "- 1 < float_div (vec_z ?L) cell_width"
      "float_div (vec_z ?L) cell_width < 2 ^ 32" by simp_all
    note fz = float_to_uint_defined[OF z]
    show ?thesis using cw False
      by (simp add: computeDimensions_def quotient_to_uint_def Let_def fx fy fz unat_clamp_one
            del: of_nat_nat)
  qed
  then obtain celldim where c: "computeDimensions box cell_width = Inr celldim"
    "unat (vec_x celldim) = max 1 (nat \<lfloor>float_div (vec_x ?L) cell_width\<rfloor>)"
    "unat (vec_y celldim) = max 1 (nat \<lfloor>float_div (vec_y ?L) cell_width\<rfloor>)"
    "unat (vec_z celldim) =
          (if is2D box then 1 else max 1 (nat \<lfloor>float_div (vec_z ?L) cell_width\<rfloor>))"
    "vec_x celldim \<noteq> 0" "vec_y celldim \<noteq> 0" "vec_z celldim \<noteq> 0" by blast
  have "unat (vec_x celldim) * unat (vec_y celldim) * unat (vec_z celldim) < 2 ^ 32
          \<longrightarrow> 1 \<le> unat (vec_x celldim * vec_y celldim * vec_z celldim)"
    using word_product_pos[OF c(5,6,7)] by blast
  then show ?thesis using c by blast
qed

theorem computeDimensions_clamped_witness:
  "\<exists>celldim. computeDimensions thin_box 1 = Inr celldim
     \<and> unat (vec_x celldim) = 10 \<and> unat (vec_y celldim) = 1 \<and> unat (vec_z celldim) = 3
     \<and> vec_x celldim \<noteq> 0 \<and> vec_y celldim \<noteq> 0 \<and> vec_z celldim \<noteq> 0
     \<and> 1 \<le> unat (vec_x celldim * vec_y celldim * vec_z celldim)"
proof -
  have f: "float_div 10 1 = 10" "float_div (1 / 2) 1 = 1 / 2" "float_div 3 1 = 3"
    by (simp_all add: float_eval)
  from computeDimensions_clamped [of 1 thin_box] obtain celldim where
    c: "computeDimensions thin_box 1 = Inr celldim"
      "unat (vec_x celldim) = 10" "unat (vec_y celldim) = 1" "unat (vec_z celldim) = 3"
      "vec_x celldim \<noteq> 0" "vec_y celldim \<noteq> 0" "vec_z celldim \<noteq> 0"
      "unat (vec_x celldim) * unat (vec_y celldim) * unat (vec_z celldim) < 2 ^ 32
          \<longrightarrow> 1 \<le> unat (vec_x celldim * vec_y celldim * vec_z celldim)"
    by (auto simp: thin_box_def f)
  have "1 \<le> unat (vec_x celldim * vec_y celldim * vec_z celldim)"
    using c(8) unfolding c(2,3,4) by simp
  then show ?thesis using c by blast
qed

lemma init_cells_error: "init_cells n cells cl = Inl e \<Longrightarrow> e = out_of_bounds"
  by (induction cells arbitrary: cl) (auto simp: array_set_def split: if_splits sum.splits)

lemma fill_cells_error: "fill_cells g ps n idxs cl = Inl e \<Longrightarrow> e = out_of_bounds"
  by (induction idxs arbitrary: cl)
     (auto simp: array_set_def array_get_def Let_def split: if_splits sum.splits)

lemma computeCellList_error:
  "computeCellList g lc ps n = (Some e, lc') \<Longrightarrow>
     e = out_of_bounds
     \<or> (e = runtime_error ''Cannot generate a cell list of 0 particles.'' \<and> n = 0 \<and> lc' = lc)"
  by (auto simp: computeCellList_def Let_def split: if_splits sum.splits
        dest: init_cells_error fill_cells_error)

text \<open>
  C3, as stated, fails: with a cell width of exactly half the plane distance (5 in a
  cubic box of side 10) the constructor returns a cell list and raises nothing.
\<close>

theorem LinkCell_half_width_counterexample:
  "\<not> isl (LinkCell_ctor getCell_first cube10 5 [origin] 1)"
proof -
  have f: "float_div 10 5 = 2" by (simp add: float_eval)
  show ?thesis
    by (simp add: LinkCell_ctor_def computeDimensions_def cube10_def quotient_to_uint_def f
          float_to_uint_def box_too_small_def computeCellList_def getNumCells_def
          getCell_first_def upt_rec array_set_def array_get_def LINK_CELL_TERMINATOR_def)
qed

text \<open>
  C3, amended. Where the grid dimensions are computed without a conversion error, the
  constructor raises the error for a box that is too small exactly when twice the cell
  width exceeds the nearest plane distance along \<open>x\<close>, along \<open>y\<close> or, unless the box
  is 2D, along \<open>z\<close>. The comparison is strict: at equality the error is not raised.
\<close>

theorem LinkCell_ctor_width_error:
  assumes "computeDimensions box cell_width = Inr celldim"
  shows "LinkCell_ctor getCell box cell_width points n_points
           = Inl (runtime_error
               ''Cannot generate a cell list where cell_width is larger than half the box.'')
         \<longleftrightarrow> (cell_width * 2 > vec_x (getNearestPlaneDistance box)
              \<or> cell_width * 2 > vec_y (getNearestPlaneDistance box)
              \<or> (\<not> is2D box \<and> cell_width * 2 > vec_z (getNearestPlaneDistance box)))"
proof (cases "box_too_small box cell_width")
  case True
  then show ?thesis using assms
    by (simp add: LinkCell_ctor_def) (simp add: box_too_small_def Let_def)
next
  case False
  have "LinkCell_ctor getCell box cell_width points n_points
          \<noteq> Inl (runtime_error
                ''Cannot generate a cell list where cell_width is larger than half the box.'')"
  proof
    assume "LinkCell_ctor getCell box cell_width points n_points
          = Inl (runtime_error
                ''Cannot generate a cell list where cell_width is larger than half the box.'')"
    then show False using False assms
      by (auto simp: LinkCell_ctor_def Let_def split: if_splits prod.splits option.splits
            dest!: computeCellList_error)
  qed
  then show ?thesis using False by (simp add: box_too_small_def Let_def)
qed

theorem LinkCell_ctor_width_error_witness:
  "computeDimensions cube10 5 = Inr \<lparr> vec_x = 2, vec_y = 2, vec_z = 2 \<rparr>
   \<and> LinkCell_ctor getCell_first cube10 5 [origin] 1
       \<noteq> Inl (runtime_error
             ''Cannot generate a cell list where cell_width is larger than half the box.'')
   \<and> LinkCell_ctor getCell_first cube10 (5 + 1 / 8) [origin] 1
       = Inl (runtime_error
             ''Cannot generate a cell list where cell_width is larger than half the box.'')"
proof -
  have f: "float_div 10 5 = 2" "float_div 10 (41 / 8) = 1023001 / 524288"
    by (simp_all add: float_eval)
  have d: "computeDimensions cube10 5 = Inr \<lparr> vec_x = 2, vec_y = 2, vec_z = 2 \<rparr>"
    by (simp add: computeDimensions_def cube10_def quotient_to_uint_def float_to_uint_def f)
  have d': "computeDimensions cube10 (5 + 1 / 8) = Inr \<lparr> vec_x = 1, vec_y = 1, vec_z = 1 \<rparr>"
    by (simp add: computeDimensions_def cube10_def quotient_to_uint_def float_to_uint_def f)
  show ?thesis
    using LinkCell_ctor_width_error [OF d, of getCell_first "[origin]" 1]
      LinkCell_ctor_width_error [OF d', of getCell_first "[origin]" 1] d
    by (simp add: cube10_def)
qed

section \<open>Properties of the neighbors of a cell\<close>

text \<open>
  C7 fails on the sources for a grid whose \<open>x\<close> and \<open>z\<close> dimensions differ.
  \<open>indexToCoord\<close> hands the dimensions to \<open>getMultiIndex\<close> in the order \<open>x, y, z\<close> and
  reads the result in reverse, so the \<open>x\<close> coordinate it returns is the index modulo
  the \<open>z\<close> dimension. In the 2D grid of 4 by 4 by 1 cells that the constructor builds
  for a box of 20 by 20 and a cell width of 5, cell 5 is the cell \<open>(1, 1, 0)\<close>;
  \<open>indexToCoord\<close> returns \<open>(0, 1, 1)\<close> for it, and \<open>computeCellNeighbors\<close> returns the
  neighbors of cell 4: the list lacks cell 6, the cell \<open>(2, 1, 0)\<close> at distance 1, and
  holds cell 3, the cell \<open>(3, 0, 0)\<close> at distance 2.
\<close>

theorem computeCellNeighbors_flat_grid:
  "LinkCell_ctor getCell_first flat_box 5 [origin] 1 = Inr lc_flat
   \<and> indexToCoord getMultiIndex_rows lc_flat 5 = Inr \<lparr> vec_x = 0, vec_y = 1, vec_z = 1 \<rparr>
   \<and> computeCellNeighbors getMultiIndex_rows coordToIndex_flat lc_flat 5
       = Inr ([0, 1, 3, 4, 5, 7, 8, 9, 11],
              lc_flat\<lparr> m_cell_neighbors := [5 \<mapsto> [0, 1, 3, 4, 5, 7, 8, 9, 11]] \<rparr>)
   \<and> coordToIndex_flat 1 1 0 = 5 \<and> coordToIndex_flat 2 1 0 = 6 \<and> coordToIndex_flat 3 0 0 = 3
   \<and> chebyshev_distance \<lparr> vec_x = 4, vec_y = 4, vec_z = 1 \<rparr>
         \<lparr> vec_x = 1, vec_y = 1, vec_z = 0 \<rparr> \<lparr> vec_x = 2, vec_y = 1, vec_z = 0 \<rparr> = 1
   \<and> chebyshev_distance \<lparr> vec_x = 4, vec_y = 4, vec_z = 1 \<rparr>
         \<lparr> vec_x = 1, vec_y = 1, vec_z = 0 \<rparr> \<lparr> vec_x = 3, vec_y = 0, vec_z = 0 \<rparr> = 2
   \<and> (6 :: 32 word) \<notin> set [0, 1, 3, 4, 5, 7, 8, 9, 11]
   \<and> (3 :: 32 word) \<in> set [0, 1, 3, 4, 5, 7, 8, 9, 11]"
proof -
  have f: "float_div 20 5 = 4" by (simp add: float_eval)
  have c: "LinkCell_ctor getCell_first flat_box 5 [origin] 1 = Inr lc_flat"
    by (simp add: LinkCell_ctor_def computeDimensions_def flat_box_def quotient_to_uint_def f
          float_to_uint_def box_too_small_def computeCellList_def getNumCells_def
          getCell_first_def upt_rec array_set_def array_get_def LINK_CELL_TERMINATOR_def
          lc_flat_def)
       (simp add: eval_nat_numeral)
  have i: "indexToCoord getMultiIndex_rows lc_flat 5 = Inr \<lparr> vec_x = 0, vec_y = 1, vec_z = 1 \<rparr>"
    by (simp add: indexToCoord_def getMultiIndex_rows_def lc_flat_def array_get_def)
  have w: "wrap_index 4 (- 1) = 3" "wrap_index 4 0 = 0" "wrap_index 4 1 = 1" "wrap_index 4 2 = 2"
    "wrap_index 1 1 = 0"
    by (simp_all add: wrap_index_def)
  have u: "[- 1 .. 1 :: int] = [- 1, 0, 1]" "[0 .. 2 :: int] = [0, 1, 2]" "[1 .. 1 :: int] = [1]"
    by (simp_all add: upto_rec1)
  have n: "computeCellNeighbors getMultiIndex_rows coordToIndex_flat lc_flat 5
       = Inr ([0, 1, 3, 4, 5, 7, 8, 9, 11],
              lc_flat\<lparr> m_cell_neighbors := [5 \<mapsto> [0, 1, 3, 4, 5, 7, 8, 9, 11]] \<rparr>)"
    unfolding computeCellNeighbors_def i
    by (simp add: Let_def lc_flat_def flat_box_def u w coordToIndex_flat_def
          word_less_nat_alt word_le_nat_alt)
  have d: "coordToIndex_flat 1 1 0 = 5" "coordToIndex_flat 2 1 0 = 6" "coordToIndex_flat 3 0 0 = 3"
    by (simp_all add: coordToIndex_flat_def)
  have e: "chebyshev_distance \<lparr> vec_x = 4, vec_y = 4, vec_z = 1 \<rparr>
         \<lparr> vec_x = 1, vec_y = 1, vec_z = 0 \<rparr> \<lparr> vec_x = 2, vec_y = 1, vec_z = 0 \<rparr> = 1"
    "chebyshev_distance \<lparr> vec_x = 4, vec_y = 4, vec_z = 1 \<rparr>
         \<lparr> vec_x = 1, vec_y = 1, vec_z = 0 \<rparr> \<lparr> vec_x = 3, vec_y = 0, vec_z = 0 \<rparr> = 2"
    by (simp_all add: chebyshev_distance_def periodic_distance_def)
  show ?thesis using c i n d e by simp
qed

section \<open>Properties of the correlation function\<close>

lemma sum_bin_ok:
  "list_all (\<lambda>l. i < length l) storage \<Longrightarrow>
     sum_bin storage i acc = Inr (foldl (\<lambda>a l. a + l ! i) acc storage)"
  by (induction storage arbitrary: acc) (auto simp: array_get_def)

lemma sum_bin_error: "sum_bin storage i acc = Inl e \<Longrightarrow> e = out_of_bounds"
  by (induction storage arbitrary: acc) (auto simp: array_get_def split: if_splits)

lemma reduce_bin_error: "reduce_bin lb lr i = Inl e \<Longrightarrow> e = out_of_bounds"
  by (auto simp: reduce_bin_def divide_by_count_def split: sum.splits if_splits
        dest: sum_bin_error)

lemma reduce_bins_error: "reduce_bins lb lr bins = Inl e \<Longrightarrow> e = out_of_bounds"
  by (induction bins arbitrary: e) (auto split: sum.splits dest: reduce_bin_error)

lemma reduce_error: "reduceCorrelationFunction cf = Inl e \<Longrightarrow> e = out_of_bounds"
  by (auto simp: reduceCorrelationFunction_def Let_def split: sum.splits if_splits
        dest: reduce_bins_error)

lemma reduce_bin_ok:
  assumes "list_all (\<lambda>l. i < length l) lb" "list_all (\<lambda>l. i < length l) lr"
  shows "reduce_bin lb lr i = Inr (merged_count lb i,
            if merged_count lb i = 0 then merged_value lr i
            else merged_value lr i / of_nat (unat (merged_count lb i)))"
  using assms
  by (simp add: reduce_bin_def sum_bin_ok merged_count_def merged_value_def divide_by_count_def)

lemma reduce_bins_ok:
  assumes "list_all (\<lambda>l. length l = n) lb" "list_all (\<lambda>l. length l = n) lr"
    and "\<forall>i \<in> set bins. i < n"
  shows "reduce_bins lb lr bins = Inr (map (\<lambda>i. (merged_count lb i,
            if merged_count lb i = 0 then merged_value lr i
            else merged_value lr i / of_nat (unat (merged_count lb i)))) bins)"
  using assms(3)
proof (induction bins)
  case Nil
  then show ?case by simp
next
  case (Cons i bins)
  have "list_all (\<lambda>l. i < length l) lb" "list_all (\<lambda>l. i < length l) lr"
    using assms(1,2) Cons.prems by (auto simp: list_all_iff)
  then show ?case using Cons by (simp add: reduce_bin_ok)
qed

lemma reduce_ok:
  assumes "storage_ok cf"
  shows "reduceCorrelationFunction cf =
     Inr (cf\<lparr> m_bin_counts := map (merged_count (m_local_bin_counts cf)) [0 ..< unat (m_nbins cf)],
              m_rdf_array :=
                map (\<lambda>i. if merged_count (m_local_bin_counts cf) i = 0
                         then merged_value (m_local_rdf_array cf) i
                         else merged_value (m_local_rdf_array cf) i
                                / of_nat (unat (merged_count (m_local_bin_counts cf) i)))
                    [0 ..< unat (m_nbins cf)] \<rparr>)"
proof -
  have "reduce_bins (m_local_bin_counts cf) (m_local_rdf_array cf) [0 ..< unat (m_nbins cf)]
     = Inr (map (\<lambda>i. (merged_count (m_local_bin_counts cf) i,
            if merged_count (m_local_bin_counts cf) i = 0
            then merged_value (m_local_rdf_array cf) i
            else merged_value (m_local_rdf_array cf) i
                   / of_nat (unat (merged_count (m_local_bin_counts cf) i))))
         [0 ..< unat (m_nbins cf)])"
    using assms by (intro reduce_bins_ok) (auto simp: storage_ok_def)
  then show ?thesis using assms
    by (simp add: reduceCorrelationFunction_def storage_ok_def Let_def comp_def)
qed

text \<open>
  C5. If \<open>getRDF\<close> returns, a second call on the state it leaves returns the same
  array and the same state, with the flag \<open>m_reduce\<close> cleared; on a well-formed state
  \<open>getRDF\<close> does return. For \<open>RDF::reduceAndReturn\<close> the second call returns the same
  state and value whatever function stands for \<open>reduce()\<close>: with the flag cleared,
  nothing is reduced again.
\<close>

theorem getRDF_idempotent:
  fixes cf :: "('a::field) CorrelationFunction"
  shows "(getRDF cf = Inr (cf1, out1) \<longrightarrow>
            getRDF cf1 = Inr (cf1, out1) \<and> m_reduce cf1 = False \<and> out1 = m_rdf_array cf1)
       \<and> (storage_ok cf \<longrightarrow> (\<exists>cf2 out2. getRDF cf = Inr (cf2, out2)))
       \<and> (reduceAndReturn reduce thing rdf = (rdf1, out) \<longrightarrow>
            reduceAndReturn reduce' thing rdf1 = (rdf1, out) \<and> rdf_m_reduce rdf1 = False)"
proof (intro conjI impI)
  assume a: "getRDF cf = Inr (cf1, out1)"
  then show "m_reduce cf1 = False" "out1 = m_rdf_array cf1"
    by (auto simp: getRDF_def Let_def split: sum.splits if_splits)
  then show "getRDF cf1 = Inr (cf1, out1)"
    by (simp add: getRDF_def Let_def)
next
  assume "storage_ok cf"
  then show "\<exists>cf2 out2. getRDF cf = Inr (cf2, out2)"
    by (cases "m_reduce cf") (simp_all add: getRDF_def Let_def reduce_ok)
next
  assume a: "reduceAndReturn reduce thing rdf = (rdf1, out)"
  then show r: "rdf_m_reduce rdf1 = False"
    by (auto simp: reduceAndReturn_def Let_def)
  from a have "out = thing rdf1" by (auto simp: reduceAndReturn_def Let_def)
  moreover from r have e: "rdf1\<lparr> rdf_m_reduce := False \<rparr> = rdf1" by (cases rdf1) simp
  ultimately show "reduceAndReturn reduce' thing rdf1 = (rdf1, out)"
    using r by (simp add: reduceAndReturn_def Let_def e)
qed

theorem getRDF_idempotent_witness:
  "getRDF cf_example = Inr (cf_example_reduced, [2, 0])
   \<and> getRDF cf_example_reduced = Inr (cf_example_reduced, [2, 0])
   \<and> m_reduce cf_example_reduced = False
   \<and> storage_ok cf_example
   \<and> reduceAndReturn reduce_example m_pcf rdf_example
        = (rdf_example\<lparr> rdf_m_reduce := False, m_pcf := [3 / 2, 0] \<rparr>, [3 / 2, 0])
   \<and> reduceAndReturn reduce_example m_pcf
          (rdf_example\<lparr> rdf_m_reduce := False, m_pcf := [3 / 2, 0] \<rparr>)
        = (rdf_example\<lparr> rdf_m_reduce := False, m_pcf := [3 / 2, 0] \<rparr>, [3 / 2, 0])"
proof -
  have s: "storage_ok cf_example"
    by (simp add: storage_ok_def cf_example_def)
  have g: "getRDF cf_example = Inr (cf_example_reduced, [2, 0])"
    by (simp add: getRDF_def reduce_ok s cf_example_reduced_def)
       (simp add: cf_example_def upt_rec merged_count_def merged_value_def)
  have r: "reduceAndReturn reduce_example m_pcf rdf_example
        = (rdf_example\<lparr> rdf_m_reduce := False, m_pcf := [3 / 2, 0] \<rparr>, [3 / 2, 0])"
    by (simp add: reduceAndReturn_def reduce_example_def rdf_example_def)
  show ?thesis
    using getRDF_idempotent [of cf_example cf_example_reduced "[2, 0]" reduce_example m_pcf
        rdf_example "rdf_example\<lparr> rdf_m_reduce := False, m_pcf := [3 / 2, 0] \<rparr>" "[3 / 2, 0]"
        reduce_example] g s r
    by simp
qed







lemma unat_le_sum_list: "i < length l \<Longrightarrow> unat (l ! i) \<le> sum_list (map unat l)"
proof (induction l arbitrary: i)
  case Nil
  then show ?case by simp
next
  case (Cons a l)
  show ?case
  proof (cases i)
    case 0
    then show ?thesis by simp
  next
    case (Suc j)
    then have "unat (l ! j) \<le> sum_list (map unat l)" using Cons by simp
    then show ?thesis using Suc by simp
  qed
qed

lemma column_le_total:
  "list_all (\<lambda>l. i < length l) lb \<Longrightarrow> sum_list (map (\<lambda>l. unat (l ! i)) lb) \<le> total_count lb"
  unfolding total_count_def
  by (induction lb) (auto simp: add_mono unat_le_sum_list)

lemma unat_foldl_column:
  "unat (foldl (\<lambda>c l. c + l ! i) (acc :: 32 word) lb)
     = (unat acc + sum_list (map (\<lambda>l. unat (l ! i)) lb)) mod 2 ^ 32"
proof (induction lb arbitrary: acc)
  case Nil
  have "unat acc < 2 ^ 32" using unsigned_less[of acc] by simp
  then show ?case by simp
next
  case (Cons l lb)
  have "unat (foldl (\<lambda>c l. c + l ! i) (acc + l ! i) lb)
      = (unat (acc + l ! i) + sum_list (map (\<lambda>l. unat (l ! i)) lb)) mod 2 ^ 32"
    by (rule Cons)
  also have "unat (acc + l ! i) = (unat acc + unat (l ! i)) mod 2 ^ 32"
    by (simp add: unat_word_ariths)
  also have "((unat acc + unat (l ! i)) mod 2 ^ 32 + sum_list (map (\<lambda>l. unat (l ! i)) lb)) mod 2 ^ 32
      = (unat acc + unat (l ! i) + sum_list (map (\<lambda>l. unat (l ! i)) lb)) mod 2 ^ 32"
    by (rule mod_add_left_eq)
  finally show ?case by (simp add: add.assoc)
qed

lemma foldl_zero_column:
  "\<forall>l \<in> set lr. l ! i = (0::'a::field) \<Longrightarrow> foldl (\<lambda>v l. v + l ! i) 0 lr = 0"
  by (induction lr) auto

lemma counted_zero_bin:
  fixes cf :: "('a::field) CorrelationFunction"
  assumes c: "counted n cf" and n: "n < 2 ^ 32" and i: "i < unat (m_nbins cf)"
    and z: "merged_count (m_local_bin_counts cf) i = 0"
  shows "merged_value (m_local_rdf_array cf) i = 0"
proof -
  let ?lb = "m_local_bin_counts cf" and ?lr = "m_local_rdf_array cf"
  have all: "list_all (\<lambda>l. i < length l) ?lb"
    using c i by (auto simp: counted_def storage_ok_def list_all_iff)
  have "sum_list (map (\<lambda>l. unat (l ! i)) ?lb) \<le> n"
    using column_le_total[OF all] c by (simp add: counted_def)
  then have lt: "sum_list (map (\<lambda>l. unat (l ! i)) ?lb) < 2 ^ 32" using n by simp
  have "unat (merged_count ?lb i) = sum_list (map (\<lambda>l. unat (l ! i)) ?lb)"
    using lt by (simp add: merged_count_def unat_foldl_column)
  with z have "sum_list (map (\<lambda>l. unat (l ! i)) ?lb) = 0" by simp
  then have zc: "\<forall>l \<in> set ?lb. l ! i = 0" by (auto simp: unat_eq_0)
  have "\<forall>l \<in> set ?lr. l ! i = 0"
  proof
    fix l assume "l \<in> set ?lr"
    then obtain t where t: "t < length ?lr" "l = ?lr ! t" by (auto simp: in_set_conv_nth)
    have tl: "t < length ?lb" using t c by (simp add: counted_def storage_ok_def)
    then have "?lb ! t ! i = 0" using zc by simp
    then show "l ! i = 0" using c tl i t by (simp add: counted_def)
  qed
  then show ?thesis by (simp add: merged_value_def foldl_zero_column)
qed

lemma nth_le_sum_list_map:
  fixes f :: "'b \<Rightarrow> nat"
  shows "t < length xs \<Longrightarrow> f (xs ! t) \<le> sum_list (map f xs)"
proof (induction xs arbitrary: t)
  case Nil
  then show ?case by simp
next
  case (Cons a xs)
  show ?case
  proof (cases t)
    case 0
    then show ?thesis by simp
  next
    case (Suc j)
    then have "f (xs ! j) \<le> sum_list (map f xs)" using Cons by simp
    then show ?thesis using Suc by simp
  qed
qed

lemma total_count_update:
  assumes t: "t < length lb" and b: "b < length (lb ! t)" and w: "unat (lb ! t ! b) + 1 < 2 ^ 32"
  shows "total_count (lb[t := (lb ! t)[b := lb ! t ! b + 1]]) = total_count lb + 1"
proof -
  let ?l = "lb ! t"
  have u: "unat (?l ! b + 1) = unat (?l ! b) + 1"
    using w by (simp add: unat_word_ariths)
  have inner: "sum_list (map unat (?l[b := ?l ! b + 1])) = sum_list (map unat ?l) + 1"
  proof -
    have "sum_list ((map unat ?l)[b := unat (?l ! b + 1)])
        = sum_list (map unat ?l) + unat (?l ! b + 1) - (map unat ?l) ! b"
      using b by (simp add: sum_list_update)
    then show ?thesis using b u by (simp add: map_update)
  qed
  have le: "sum_list (map unat ?l) \<le> total_count lb"
    unfolding total_count_def using t by (rule nth_le_sum_list_map)
  have "sum_list ((map (\<lambda>l. sum_list (map unat l)) lb)[t := sum_list (map unat (?l[b := ?l ! b + 1]))])
      = sum_list (map (\<lambda>l. sum_list (map unat l)) lb) + sum_list (map unat (?l[b := ?l ! b + 1]))
        - (map (\<lambda>l. sum_list (map unat l)) lb) ! t"
    using t by (simp add: sum_list_update)
  then show ?thesis using t inner le
    by (simp add: total_count_def map_update)
qed

lemma counted_mono: "counted n cf \<Longrightarrow> n \<le> m \<Longrightarrow> counted m cf"
  by (auto simp: counted_def)

lemma counted_accumulate_bond:
  fixes cf :: "('a::field) CorrelationFunction"
  assumes c: "counted n cf" and n: "Suc n < 2 ^ 32"
    and a: "accumulate_bond values query_values cf tb = Inr cf'"
  shows "counted (Suc n) cf' \<and> m_nbins cf' = m_nbins cf"
proof (cases "cvtt_ss2si (float_mul (distance (snd tb)) (float_div 1 (m_dr cf))) < m_nbins cf")
  case False
  then have "cf' = cf" using a by (simp add: accumulate_bond_def Let_def)
  then show ?thesis using c by (auto intro: counted_mono)
next
  case True
  let ?t = "fst tb" and ?b = "unat (cvtt_ss2si (float_mul (distance (snd tb)) (float_div 1 (m_dr cf))))"
  let ?lb = "m_local_bin_counts cf" and ?lr = "m_local_rdf_array cf"
  from a True obtain v qv where
    t: "?t < length ?lb" "?b < length (?lb ! ?t)" "?t < length ?lr" "?b < length (?lr ! ?t)"
    and cf': "cf' = cf\<lparr> m_local_bin_counts := ?lb[?t := (?lb ! ?t)[?b := ?lb ! ?t ! ?b + 1]],
                         m_local_rdf_array := ?lr[?t := (?lr ! ?t)[?b := ?lr ! ?t ! ?b + v * qv]] \<rparr>"
    by (auto simp: accumulate_bond_def Let_def local_update_def split: sum.splits if_splits)
  have ok: "storage_ok cf" and tot: "total_count ?lb \<le> n" using c by (simp_all add: counted_def)
  have "unat (?lb ! ?t ! ?b) \<le> sum_list (map unat (?lb ! ?t))"
    using t(2) by (rule nth_le_sum_list_map)
  also have "\<dots> \<le> total_count ?lb"
    unfolding total_count_def using t(1) by (rule nth_le_sum_list_map)
  finally have small: "unat (?lb ! ?t ! ?b) + 1 < 2 ^ 32" using tot n by simp
  then have "unat (?lb ! ?t ! ?b + 1) = unat (?lb ! ?t ! ?b) + 1"
    by (simp add: unat_word_ariths)
  then have nz: "?lb ! ?t ! ?b + 1 \<noteq> 0"
    by (auto simp del: unsigned_1 dest: arg_cong[where f = unat])
  have tc: "total_count (m_local_bin_counts cf') \<le> Suc n"
    using total_count_update[OF t(1) t(2) small] tot by (simp add: cf')
  have ok': "storage_ok cf'"
    using ok t by (auto simp: cf' storage_ok_def list_all_length nth_list_update)
  have z: "\<forall>t < length (m_local_bin_counts cf'). \<forall>i < unat (m_nbins cf').
           m_local_bin_counts cf' ! t ! i = 0 \<longrightarrow> m_local_rdf_array cf' ! t ! i = 0"
  proof (intro allI impI)
    fix s i
    assume s: "s < length (m_local_bin_counts cf')" and i: "i < unat (m_nbins cf')"
      and e: "m_local_bin_counts cf' ! s ! i = 0"
    have old: "?lb ! s ! i = 0 \<longrightarrow> ?lr ! s ! i = 0"
      using c s i by (simp add: counted_def cf')
    show "m_local_rdf_array cf' ! s ! i = 0"
    proof (cases "s = ?t \<and> i = ?b")
      case True
      then show ?thesis using e nz t by (simp add: cf')
    next
      case False
      then show ?thesis using e old t s
        by (auto simp: cf' nth_list_update split: if_splits)
    qed
  qed
  show ?thesis using ok' tc z by (simp add: counted_def) (simp add: cf')
qed

lemma counted_accumulate_bonds:
  fixes cf :: "('a::field) CorrelationFunction"
  assumes "counted n cf" "n + length bonds < 2 ^ 32"
    "accumulate_bonds values query_values cf bonds = Inr cf'"
  shows "counted (n + length bonds) cf'"
  using assms
proof (induction bonds arbitrary: n cf)
  case Nil
  then show ?case by simp
next
  case (Cons tb bonds)
  from Cons.prems(3) obtain cf1 where
    1: "accumulate_bond values query_values cf tb = Inr cf1"
    and 2: "accumulate_bonds values query_values cf1 bonds = Inr cf'"
    by (auto split: sum.splits)
  have "counted (Suc n) cf1"
    using counted_accumulate_bond[OF Cons.prems(1) _ 1] Cons.prems(2) by simp
  moreover have "Suc n + length bonds < 2 ^ 32" using Cons.prems(2) by simp
  ultimately have "counted (Suc n + length bonds) cf'"
    using 2 by (rule Cons.IH)
  then show ?case by simp
qed

lemma counted_fields:
  "counted n cf \<Longrightarrow> counted n (cf\<lparr> m_box := b \<rparr>)"
  "counted n cf \<Longrightarrow> counted n (cf\<lparr> m_frame_counter := k, m_reduce := r \<rparr>)"
  "counted n cf \<Longrightarrow> counted n (cf\<lparr> m_reduce := r \<rparr>)"
  by (simp_all add: counted_def storage_ok_def)

lemma counted_accumulate:
  fixes cf :: "('a::field) CorrelationFunction"
  assumes "counted n cf" "n + length bonds < 2 ^ 32"
    "accumulate box values query_values bonds cf = Inr cf'"
  shows "counted (n + length bonds) cf'"
proof -
  from assms(3) obtain cf1 where
    1: "accumulate_bonds values query_values (cf\<lparr> m_box := box \<rparr>) bonds = Inr cf1"
    and 2: "cf' = cf1\<lparr> m_frame_counter := m_frame_counter cf1 + 1, m_reduce := True \<rparr>"
    by (auto simp: accumulate_def split: sum.splits)
  have "counted (n + length bonds) cf1"
    using counted_accumulate_bonds[OF counted_fields(1)[OF assms(1)] assms(2) 1] .
  then show ?thesis unfolding 2 by (rule counted_fields(2))
qed

lemma counted_reset:
  fixes cf :: "('a::field) CorrelationFunction"
  assumes "counted n cf"
  shows "counted n (reset cf)"
proof -
  have "total_count (map (map (\<lambda>c. 0)) lb) = 0" for lb :: "32 word list list"
    unfolding total_count_def by (induction lb) (simp_all add: comp_def)
  then show ?thesis using assms
    by (auto simp: counted_def reset_def storage_ok_def list_all_length)
qed

lemma counted_getRDF:
  fixes cf :: "('a::field) CorrelationFunction"
  assumes "counted n cf" "getRDF cf = Inr r"
  shows "counted n (fst r)"
proof -
  have ok: "storage_ok cf" using assms(1) by (simp add: counted_def)
  show ?thesis
  proof (cases "m_reduce cf")
    case True
    then show ?thesis using assms
      by (auto simp: getRDF_def Let_def reduce_ok[OF ok] counted_def storage_ok_def)
  next
    case False
    then show ?thesis using assms
      by (auto simp: getRDF_def Let_def counted_def storage_ok_def)
  qed
qed

lemma counted_run_calls:
  fixes cf :: "('a::field) CorrelationFunction"
  assumes "counted n cf" "n + total_bonds calls < 2 ^ 32" "run_calls cf calls = Inr cf'"
  shows "counted (n + total_bonds calls) cf'"
  using assms
proof (induction calls arbitrary: n cf)
  case Nil
  then show ?case by (simp add: total_bonds_def)
next
  case (Cons c calls)
  from Cons.prems(3) obtain cf1 where
    1: "run_call cf c = Inr cf1" and 2: "run_calls cf1 calls = Inr cf'"
    by (auto split: sum.splits)
  have b: "n + bonds_of c + total_bonds calls < 2 ^ 32"
    using Cons.prems(2) by (simp add: total_bonds_def)
  have "counted (n + bonds_of c) cf1"
  proof (cases c)
    case (Accumulate box vs qvs bonds)
    then show ?thesis using 1 counted_accumulate[OF Cons.prems(1)] b by simp
  next
    case Reset
    then show ?thesis using 1 counted_reset[OF Cons.prems(1)] by auto
  next
    case GetRDF
    then show ?thesis using 1 counted_getRDF[OF Cons.prems(1)] by (auto split: sum.splits)
  qed
  then have "counted (n + bonds_of c + total_bonds calls) cf'"
    using b 2 by (rule Cons.IH)
  then show ?case by (simp add: total_bonds_def add.assoc)
qed

lemma float_unit_eval:
  "float_div 2 1 = 2" "float_div 1 1 = 1" "float_mul 0 1 = 0" "float_mul 0 (float_div 1 1) = 0"
  by (simp_all add: float_eval)

lemma bin_center_unit:
  "bin_center 1 0 = 11184811 / 16777216" "bin_center 1 (Suc 0) = 13048947 / 8388608"
  by (simp_all add: bin_center_def float_eval)

lemma floorf_to_int_pos:
  assumes "floorf_to_int r = Inr n" "1 \<le> r"
  shows "0 < unat n \<and> unat n < 2 ^ 31"
proof -
  have f: "\<lfloor>r\<rfloor> < 2 ^ 31" "n = of_int \<lfloor>r\<rfloor>" using assms(1)
    by (auto simp: floorf_to_int_def split: if_splits)
  have p: "1 \<le> \<lfloor>r\<rfloor>" using assms(2) by (simp add: le_floor_iff)
  then have "n = of_nat (nat \<lfloor>r\<rfloor>)" using f by simp
  moreover have "nat \<lfloor>r\<rfloor> < 2 ^ 31" using f(1) p by (simp add: nat_less_iff)
  ultimately have "unat n = nat \<lfloor>r\<rfloor>" by (simp only: unat_of_nat) simp
  then show ?thesis using p f \<open>nat \<lfloor>r\<rfloor> < 2 ^ 31\<close> by simp
qed

lemma counted_ctor:
  assumes "CorrelationFunction_ctor box0 n_threads r_max dr = Inr (cf :: ('a::field) CorrelationFunction)"
  shows "counted 0 cf \<and> 0 < m_dr cf \<and> 0 < unat (m_nbins cf) \<and> unat (m_nbins cf) < 2 ^ 31
    \<and> length (m_local_bin_counts cf) = n_threads"
proof -
  from assms obtain nbins where
    n: "floorf_to_int (float_div r_max dr) = Inr nbins" and dr: "0 < dr" "dr \<le> r_max"
    and cf: "cf = \<lparr> m_box = box0, m_r_max = r_max, m_dr = dr, m_frame_counter = 0, m_reduce = True,
              m_nbins = nbins,
              m_rdf_array = replicate (unat nbins) 0,
              m_bin_counts = replicate (unat nbins) 0,
              m_r_array = map (bin_center dr) [0 ..< unat nbins],
              m_local_bin_counts = replicate n_threads (replicate (unat nbins) 0),
              m_local_rdf_array = replicate n_threads (replicate (unat nbins) 0) \<rparr>"
    by (auto simp: CorrelationFunction_ctor_def split: if_splits sum.splits)
  have "1 \<le> r_max / dr" using dr by simp
  then have "1 \<le> float_div r_max dr" unfolding float_div_def by (rule to_float_ge_one)
  note b = floorf_to_int_pos[OF n this]
  have "total_count (replicate k (replicate m 0)) = 0" for k m
    unfolding total_count_def by (induction k) simp_all
  then show ?thesis using b dr
    by (simp add: cf counted_def storage_ok_def list_all_length)
qed

text \<open>
  C10, amended. The reduction never divides by zero, in any state. On a well-formed
  state it returns, and every bin then holds the sum of the counts of the threads and,
  where that sum is zero, the sum of the values of the threads, undivided; elsewhere
  the sum of the values divided by the count. After any run of calls from the
  constructor on that hands fewer than \<open>2^32\<close> bonds to \<open>accumulate\<close>, every bin
  whose merged count is zero holds the value zero.
\<close>

theorem reduce_guarded_division:
  fixes cf :: "('a::field) CorrelationFunction"
  shows "reduceCorrelationFunction cf \<noteq> Inl division_by_zero
     \<and> (storage_ok cf \<longrightarrow>
          (\<exists>cf'. reduceCorrelationFunction cf = Inr cf'
             \<and> (\<forall>i < unat (m_nbins cf).
                   m_bin_counts cf' ! i = merged_count (m_local_bin_counts cf) i
                   \<and> m_rdf_array cf' ! i =
                       (if merged_count (m_local_bin_counts cf) i = 0
                        then merged_value (m_local_rdf_array cf) i
                        else merged_value (m_local_rdf_array cf) i
                               / of_nat (unat (merged_count (m_local_bin_counts cf) i))))))
     \<and> (CorrelationFunction_ctor box0 n_threads r_max dr = Inr cf0
          \<and> run_calls cf0 calls = Inr cf \<and> total_bonds calls < 2 ^ 32 \<longrightarrow>
          (\<exists>cf'. reduceCorrelationFunction cf = Inr cf'
             \<and> (\<forall>i < unat (m_nbins cf). m_bin_counts cf' ! i = 0 \<longrightarrow> m_rdf_array cf' ! i = 0)))"
proof (intro conjI impI)
  show "reduceCorrelationFunction cf \<noteq> Inl division_by_zero"
    using reduce_error[of cf division_by_zero] by auto
next
  assume "storage_ok cf"
  then show "\<exists>cf'. reduceCorrelationFunction cf = Inr cf'
             \<and> (\<forall>i < unat (m_nbins cf).
                   m_bin_counts cf' ! i = merged_count (m_local_bin_counts cf) i
                   \<and> m_rdf_array cf' ! i =
                       (if merged_count (m_local_bin_counts cf) i = 0
                        then merged_value (m_local_rdf_array cf) i
                        else merged_value (m_local_rdf_array cf) i
                               / of_nat (unat (merged_count (m_local_bin_counts cf) i))))"
    by (simp add: reduce_ok)
next
  assume a: "CorrelationFunction_ctor box0 n_threads r_max dr = Inr cf0
          \<and> run_calls cf0 calls = Inr cf \<and> total_bonds calls < 2 ^ 32"
  then have "counted 0 cf0" using counted_ctor by blast
  then have c: "counted (0 + total_bonds calls) cf"
    using a by (intro counted_run_calls[of 0 cf0 calls cf]) simp_all
  then have ok: "storage_ok cf" by (simp add: counted_def)
  have "\<forall>i < unat (m_nbins cf). merged_count (m_local_bin_counts cf) i = 0
          \<longrightarrow> merged_value (m_local_rdf_array cf) i = 0"
    using counted_zero_bin[OF c] a by simp
  then show "\<exists>cf'. reduceCorrelationFunction cf = Inr cf'
             \<and> (\<forall>i < unat (m_nbins cf). m_bin_counts cf' ! i = 0 \<longrightarrow> m_rdf_array cf' ! i = 0)"
    by (simp add: reduce_ok[OF ok])
qed

theorem reduce_guarded_division_witness:
  "storage_ok cf_two
   \<and> CorrelationFunction_ctor cube10 1 2 1 = Inr cf_two_fresh
   \<and> run_calls cf_two_fresh [Accumulate cube10 [1] [1] [(0, bond_zero)]] = Inr cf_two
   \<and> total_bonds [Accumulate cube10 [1 :: real] [1] [(0, bond_zero)]] < 2 ^ 32
   \<and> reduceCorrelationFunction cf_two = Inr cf_two_reduced
   \<and> m_bin_counts cf_two_reduced ! 1 = 0 \<and> m_rdf_array cf_two_reduced ! 1 = 0"
proof -
  have s: "storage_ok cf_two"
    by (simp add: storage_ok_def cf_two_def cf_two_fresh_def)
  have c: "CorrelationFunction_ctor cube10 1 2 1 = Inr cf_two_fresh"
    by (simp add: CorrelationFunction_ctor_def floorf_to_int_def float_unit_eval
          cf_two_fresh_def upt_rec bin_center_unit) (simp add: numeral_2_eq_2)
  have r: "run_calls cf_two_fresh [Accumulate cube10 [1] [1] [(0, bond_zero)]] = Inr cf_two"
    by (simp add: accumulate_def accumulate_bond_def cf_two_fresh_def cf_two_def bond_zero_def
          float_unit_eval cvtt_ss2si_def local_update_def array_get_def cube10_def)
  have t: "total_bonds [Accumulate cube10 [1 :: real] [1] [(0, bond_zero)]] < 2 ^ 32"
    by (simp add: total_bonds_def)
  have d: "reduceCorrelationFunction cf_two = Inr cf_two_reduced"
    by (simp add: reduce_ok s cf_two_reduced_def)
       (simp add: cf_two_def cf_two_fresh_def upt_rec merged_count_def merged_value_def)
  show ?thesis
    using reduce_guarded_division [of cf_two cube10 1 2 1 cf_two_fresh
        "[Accumulate cube10 [1] [1] [(0, bond_zero)]]"] s c r t d
    by (simp add: cf_two_reduced_def)
qed

lemma accumulate_replicate:
  "accumulate_bonds [1] [1]
     (cf_fresh\<lparr> m_local_bin_counts := [[c]], m_local_rdf_array := [[v]] \<rparr>)
     (replicate n (0, bond_zero))
   = Inr (cf_fresh\<lparr> m_local_bin_counts := [[c + of_nat n]], m_local_rdf_array := [[v + of_nat n]] \<rparr>)"
proof (induction n arbitrary: c v)
  case 0
  then show ?case by simp
next
  case (Suc n)
  have "accumulate_bond [1] [1]
     (cf_fresh\<lparr> m_local_bin_counts := [[c]], m_local_rdf_array := [[v]] \<rparr>) (0, bond_zero)
     = Inr (cf_fresh\<lparr> m_local_bin_counts := [[c + 1]], m_local_rdf_array := [[v + 1]] \<rparr>)"
    by (simp add: accumulate_bond_def cf_fresh_def bond_zero_def float_unit_eval cvtt_ss2si_def
          local_update_def array_get_def)
  then show ?case using Suc[where c = "c + 1" and v = "v + 1"] by (simp add: add.assoc add.commute)
qed

text \<open>
  C10, as stated, fails once a 32-bit counter has wrapped: after \<open>2^32\<close> bonds in one
  bin the merged count of the bin is zero, and the bin holds the undivided sum
  \<open>4294967296\<close>, not zero.
\<close>

theorem reduce_wrapped_count_counterexample:
  "CorrelationFunction_ctor cube10 1 1 1 = Inr cf_fresh
   \<and> accumulate cube10 [1] [1] (replicate (2 ^ 32) (0, bond_zero)) cf_fresh = Inr cf_wrapped
   \<and> reduceCorrelationFunction cf_wrapped = Inr cf_wrapped_reduced
   \<and> m_bin_counts cf_wrapped_reduced ! 0 = 0
   \<and> m_rdf_array cf_wrapped_reduced ! 0 \<noteq> 0"
proof -
  have 1: "CorrelationFunction_ctor cube10 1 1 1 = Inr cf_fresh"
    by (simp add: CorrelationFunction_ctor_def floorf_to_int_def float_unit_eval cf_fresh_def
          bin_center_unit)
  have "cf_fresh\<lparr> m_box := cube10 \<rparr> = cf_fresh\<lparr> m_local_bin_counts := [[0]], m_local_rdf_array := [[0]] \<rparr>"
    by (simp add: cf_fresh_def)
  then have 2: "accumulate cube10 [1] [1] (replicate (2 ^ 32) (0, bond_zero)) cf_fresh = Inr cf_wrapped"
    by (simp add: accumulate_def accumulate_replicate cf_wrapped_def) (simp add: cf_fresh_def)
  have 3: "reduceCorrelationFunction cf_wrapped = Inr cf_wrapped_reduced"
    by (simp add: reduceCorrelationFunction_def cf_wrapped_reduced_def)
       (simp add: cf_wrapped_def cf_fresh_def reduce_bin_def array_get_def)
  show ?thesis using 1 2 3
    by (simp add: cf_wrapped_reduced_def)
qed

section \<open>Properties of the iterators\<close>

lemma scan_cell_chain:
  assumes "chain (m_cell_list (m_linkcell it)) cur js"
    and "\<forall>j \<in> set js. unat j < length (m_points (m_linkcell it))"
  shows "scan_cell it cur =
     Some (Inr (case dropWhile (\<lambda>j. \<not> passes it j) js of
                  [] \<Rightarrow> (None, LINK_CELL_TERMINATOR)
                | j # rest \<Rightarrow> (Some (bond_of it j), j)))
     \<and> (\<forall>j rest. dropWhile (\<lambda>j. \<not> passes it j) js = j # rest
           \<longrightarrow> chain (m_cell_list (m_linkcell it)) j rest)"
  using assms
proof (induction rule: chain.induct)
  case (chain_end cur)
  then show ?case by (subst scan_cell.simps) (simp add: array_get_def)
next
  case (chain_step cur j js)
  have j: "unat j < length (m_points (m_linkcell it))" using chain_step.prems by simp
  have ih: "scan_cell it j =
     Some (Inr (case dropWhile (\<lambda>j. \<not> passes it j) js of
                  [] \<Rightarrow> (None, LINK_CELL_TERMINATOR)
                | j # rest \<Rightarrow> (Some (bond_of it j), j)))"
    "\<forall>j' rest. dropWhile (\<lambda>j. \<not> passes it j) js = j' # rest
           \<longrightarrow> chain (m_cell_list (m_linkcell it)) j' rest"
    using chain_step.IH chain_step.prems by simp_all
  show ?case
  proof (cases "passes it j")
    case True
    then show ?thesis using chain_step.hyps j
      by (subst scan_cell.simps) (auto simp: array_get_def passes_def bond_of_def Let_def)
  next
    case False
    then have "scan_cell it cur = scan_cell it j" using chain_step.hyps j
      by (subst scan_cell.simps) (auto simp: array_get_def passes_def Let_def)
    then show ?thesis using False ih by simp
  qed
qed

lemma shell_pos_Suc: "shell_pos h b (Suc n) = shell_incr h (shell_pos h b n)"
  by (simp add: shell_pos_def)

lemma shell_pos_0: "shell_pos h b 0 = IteratorCellShell_ctor 0 b"
  by (simp add: shell_pos_def)

lemma shell_pos_inv:
  assumes "shells_ok h b"
  shows "m_is2D (shell_pos h b n) = b
    \<and> m_offset (shell_pos h b n) < length (cell_shell h b (m_range (shell_pos h b n)))"
proof (induction n)
  case 0
  then show ?case using assms
    by (simp add: shell_pos_0 IteratorCellShell_ctor_def shells_ok_def)
next
  case (Suc n)
  have ne: "cell_shell h b (Suc (m_range (shell_pos h b n))) \<noteq> []"
    using assms by (simp add: shells_ok_def)
  show ?case using Suc ne by (simp add: shell_pos_Suc shell_incr_def)
qed

lemma shell_deref_pos:
  assumes "shells_ok h b"
  shows "shell_deref h (shell_pos h b n)
     = Inr (cell_shell h b (m_range (shell_pos h b n)) ! m_offset (shell_pos h b n))"
  using shell_pos_inv[OF assms, of n] by (simp add: shell_deref_def array_get_def)

lemma shell_range_mono_Suc:
  "m_range (shell_pos h b n) \<le> m_range (shell_pos h b (Suc n))"
  by (simp add: shell_pos_Suc shell_incr_def)

lemma shell_range_mono: "m \<le> n \<Longrightarrow> m_range (shell_pos h b m) \<le> m_range (shell_pos h b n)"
  by (induction n) (auto simp: le_Suc_eq intro: order_trans[OF _ shell_range_mono_Suc])

lemma shell_pos_within:
  assumes "shells_ok h b" "k < length (cell_shell h b r)"
  shows "shell_pos h b (shell_start h b r + k) = \<lparr> m_range = r, m_offset = k, m_is2D = b \<rparr>"
  using assms(2)
proof (induction r arbitrary: k)
  case 0
  then have "k = 0" using assms(1) by (simp add: shells_ok_def)
  then show ?case by (simp add: shell_start_def shell_pos_0 IteratorCellShell_ctor_def)
next
  case (Suc r)
  have ne: "cell_shell h b r \<noteq> []" using assms(1) by (simp add: shells_ok_def)
  then have last: "length (cell_shell h b r) - 1 < length (cell_shell h b r)" by simp
  have st: "shell_start h b (Suc r) = Suc (shell_start h b r + (length (cell_shell h b r) - 1))"
    using ne by (simp add: shell_start_def)
  have prev: "shell_pos h b (shell_start h b r + (length (cell_shell h b r) - 1))
      = \<lparr> m_range = r, m_offset = length (cell_shell h b r) - 1, m_is2D = b \<rparr>"
    using Suc.IH[OF last] .
  have base: "shell_pos h b (shell_start h b (Suc r)) = \<lparr> m_range = Suc r, m_offset = 0, m_is2D = b \<rparr>"
    unfolding st shell_pos_Suc prev using ne by (simp add: shell_incr_def)
  show ?case using Suc.prems
  proof (induction k)
    case 0
    then show ?case using base by simp
  next
    case (Suc k)
    then have "shell_pos h b (shell_start h b (Suc r) + k) = \<lparr> m_range = Suc r, m_offset = k, m_is2D = b \<rparr>"
      by simp
    then show ?case using Suc.prems by (simp add: shell_pos_Suc shell_incr_def)
  qed
qed

lemma shell_reaches_range:
  assumes "shells_ok h b"
  shows "m_range (shell_pos h b (shell_start h b r)) = r"
proof -
  have "0 < length (cell_shell h b r)" using assms by (simp add: shells_ok_def)
  from shell_pos_within[OF assms this] show ?thesis by simp
qed

lemma shell_start_pos:
  assumes "shells_ok h b" "0 < r"
  shows "0 < shell_start h b r"
proof -
  have "length (cell_shell h b 0) \<le> shell_start h b r"
    unfolding shell_start_def using assms(2)
    by (intro member_le_sum) auto
  moreover have "0 < length (cell_shell h b 0)" using assms(1) by (simp add: shells_ok_def)
  ultimately show ?thesis by (rule less_le_trans[rotated])
qed

lemma ball_at_fields [simp]:
  "m_linkcell (ball_at h it0 n cur S) = m_linkcell it0"
  "m_query_point (ball_at h it0 n cur S) = m_query_point it0"
  "m_query_point_idx (ball_at h it0 n cur S) = m_query_point_idx it0"
  "LinkCellIterator.m_r_max (ball_at h it0 n cur S) = LinkCellIterator.m_r_max it0"
  "m_r_min (ball_at h it0 n cur S) = m_r_min it0"
  "m_exclude_ii (ball_at h it0 n cur S) = m_exclude_ii it0"
  "m_extra_search_width (ball_at h it0 n cur S) = m_extra_search_width it0"
  "m_cell_iter (ball_at h it0 n cur S) = cur"
  "m_searched_cells (ball_at h it0 n cur S) = S"
  "m_finished (ball_at h it0 n cur S) = m_finished it0"
  "m_neigh_cell_iter (ball_at h it0 n cur S) = shell_pos h (m_is2D (m_neigh_cell_iter it0)) n"
  by (simp_all add: ball_at_def)

lemma ball_at_updates:
  "(ball_at h it0 n cur S)\<lparr> m_neigh_cell_iter := shell_incr h (shell_pos h (m_is2D (m_neigh_cell_iter it0)) n) \<rparr>
     = ball_at h it0 (Suc n) cur S"
  "(ball_at h it0 n cur S)\<lparr> m_searched_cells := S' \<rparr> = ball_at h it0 n cur S'"
  "(ball_at h it0 n cur S)\<lparr> m_cell_iter := cur' \<rparr> = ball_at h it0 n cur' S"
  by (simp_all add: ball_at_def shell_pos_Suc)

lemma cell_at_image_Suc: "insert (cell_at h it (Suc n)) (cell_at h it ` {..n}) = cell_at h it ` {..Suc n}"
  by (simp add: atMost_Suc)

lemma ball_advance_step:
  assumes ok: "shells_ok h (m_is2D (m_neigh_cell_iter it0))"
  shows "ball_advance h (query_cell h it0) (ball_at h it0 n cur (cell_at h it0 ` {..n})) =
     (if beyond it0 (m_range (shell_pos h (m_is2D (m_neigh_cell_iter it0)) (Suc n)))
      then Some (Inr (True, ball_at h it0 (Suc n) cur (cell_at h it0 ` {..n})))
      else if is_new h it0 (Suc n)
      then Some (Inr (False, ball_at h it0 (Suc n)
                   (itercell (m_linkcell it0) (cell_at h it0 (Suc n))) (cell_at h it0 ` {..Suc n})))
      else ball_advance h (query_cell h it0)
             (ball_at h it0 (Suc n) cur (cell_at h it0 ` {..Suc n})))"
proof -
  let ?b = "m_is2D (m_neigh_cell_iter it0)"
  have d: "shell_deref h (shell_pos h ?b (Suc n))
     = Inr (cell_shell h ?b (m_range (shell_pos h ?b (Suc n))) ! m_offset (shell_pos h ?b (Suc n)))"
    by (rule shell_deref_pos[OF ok])
  have b: "m_is2D (shell_pos h ?b (Suc n)) = ?b" using shell_pos_inv[OF ok] by simp
  have c: "getCellIndex h (m_celldim (m_linkcell it0))
             (vec_plus (query_cell h it0)
                (cell_shell h ?b (m_range (shell_pos h ?b (Suc n))) ! m_offset (shell_pos h ?b (Suc n))))
           = cell_at h it0 (Suc n)"
    by (simp add: cell_at_def Let_def b)
  have new: "cell_at h it0 (Suc n) \<notin> cell_at h it0 ` {..n} \<longleftrightarrow> is_new h it0 (Suc n)"
    by (simp add: is_new_def lessThan_Suc_atMost)
  show ?thesis
    by (subst ball_advance.simps)
       (simp add: Let_def ball_at_updates beyond_def getRange_def d c new cell_at_image_Suc
          del: shell_pos_Suc)
qed

lemma ball_advance_run:
  assumes ok: "shells_ok h (m_is2D (m_neigh_cell_iter it0))"
    and nN: "n < N"
    and stop: "beyond it0 (m_range (shell_pos h (m_is2D (m_neigh_cell_iter it0)) N))"
    and before: "\<forall>m. n < m \<and> m < N \<longrightarrow> \<not> beyond it0 (m_range (shell_pos h (m_is2D (m_neigh_cell_iter it0)) m))"
  shows "(\<exists>m. n < m \<and> m < N \<and> is_new h it0 m \<and> (\<forall>k. n < k \<and> k < m \<longrightarrow> \<not> is_new h it0 k)
            \<and> ball_advance h (query_cell h it0) (ball_at h it0 n cur (cell_at h it0 ` {..n}))
                = Some (Inr (False, ball_at h it0 m (itercell (m_linkcell it0) (cell_at h it0 m))
                                     (cell_at h it0 ` {..m}))))
       \<or> ((\<forall>k. n < k \<and> k < N \<longrightarrow> \<not> is_new h it0 k)
            \<and> ball_advance h (query_cell h it0) (ball_at h it0 n cur (cell_at h it0 ` {..n}))
                = Some (Inr (True, ball_at h it0 N cur (cell_at h it0 ` {..<N}))))"
  using nN before
proof (induction "N - n" arbitrary: n)
  case 0
  then show ?case by simp
next
  case (Suc d)
  note step = ball_advance_step[OF ok, of n cur]
  show ?case
  proof (cases "Suc n = N")
    case True
    then have e: "{..n} = {..<N}" by auto
    have "ball_advance h (query_cell h it0) (ball_at h it0 n cur (cell_at h it0 ` {..n}))
        = Some (Inr (True, ball_at h it0 N cur (cell_at h it0 ` {..<N})))"
      unfolding step using stop True e by simp
    moreover have "\<forall>k. n < k \<and> k < N \<longrightarrow> \<not> is_new h it0 k" using True by auto
    ultimately show ?thesis by blast
  next
    case False
    then have lt: "Suc n < N" using Suc.prems by simp
    then have nb: "\<not> beyond it0 (m_range (shell_pos h (m_is2D (m_neigh_cell_iter it0)) (Suc n)))"
      using Suc.prems by simp
    show ?thesis
    proof (cases "is_new h it0 (Suc n)")
      case True
      have "\<forall>k. n < k \<and> k < Suc n \<longrightarrow> \<not> is_new h it0 k" by auto
      moreover have "ball_advance h (query_cell h it0) (ball_at h it0 n cur (cell_at h it0 ` {..n}))
          = Some (Inr (False, ball_at h it0 (Suc n) (itercell (m_linkcell it0) (cell_at h it0 (Suc n)))
                                     (cell_at h it0 ` {..Suc n})))"
        unfolding step using nb True by simp
      ultimately show ?thesis using True lt by (intro disjI1 exI[of _ "Suc n"]) blast
    next
      case old: False
      have eq: "ball_advance h (query_cell h it0) (ball_at h it0 n cur (cell_at h it0 ` {..n}))
        = ball_advance h (query_cell h it0) (ball_at h it0 (Suc n) cur (cell_at h it0 ` {..Suc n}))"
        unfolding step using nb old by simp
      have d: "d = N - Suc n" using Suc.hyps(2) by simp
      have bf: "\<forall>m. Suc n < m \<and> m < N \<longrightarrow> \<not> beyond it0 (m_range (shell_pos h (m_is2D (m_neigh_cell_iter it0)) m))"
        using Suc.prems by simp
      from Suc.hyps(1)[OF d lt bf] show ?thesis
      proof
        assume "\<exists>m>Suc n. m < N \<and> is_new h it0 m \<and> (\<forall>k. Suc n < k \<and> k < m \<longrightarrow> \<not> is_new h it0 k)
            \<and> ball_advance h (query_cell h it0) (ball_at h it0 (Suc n) cur (cell_at h it0 ` {..Suc n}))
                = Some (Inr (False, ball_at h it0 m (itercell (m_linkcell it0) (cell_at h it0 m))
                                     (cell_at h it0 ` {..m})))"
        then obtain m where m: "Suc n < m" "m < N" "is_new h it0 m"
          "\<forall>k. Suc n < k \<and> k < m \<longrightarrow> \<not> is_new h it0 k"
          "ball_advance h (query_cell h it0) (ball_at h it0 (Suc n) cur (cell_at h it0 ` {..Suc n}))
                = Some (Inr (False, ball_at h it0 m (itercell (m_linkcell it0) (cell_at h it0 m))
                                     (cell_at h it0 ` {..m})))" by blast
        have "\<forall>k. n < k \<and> k < m \<longrightarrow> \<not> is_new h it0 k"
        proof (intro allI impI)
          fix k assume "n < k \<and> k < m"
          then have "k = Suc n \<or> (Suc n < k \<and> k < m)" by auto
          then show "\<not> is_new h it0 k" using old m(4) by auto
        qed
        moreover have "n < m" using m(1) by simp
        moreover have "ball_advance h (query_cell h it0) (ball_at h it0 n cur (cell_at h it0 ` {..n}))
                = Some (Inr (False, ball_at h it0 m (itercell (m_linkcell it0) (cell_at h it0 m))
                                     (cell_at h it0 ` {..m})))" using eq m(5) by (rule trans)
        ultimately show ?thesis using m(2,3) by (intro disjI1 exI[of _ m]) blast
      next
        assume a: "(\<forall>k. Suc n < k \<and> k < N \<longrightarrow> \<not> is_new h it0 k)
            \<and> ball_advance h (query_cell h it0) (ball_at h it0 (Suc n) cur (cell_at h it0 ` {..Suc n}))
                = Some (Inr (True, ball_at h it0 N cur (cell_at h it0 ` {..<N})))"
        have "\<forall>k. n < k \<and> k < N \<longrightarrow> \<not> is_new h it0 k"
        proof (intro allI impI)
          fix k assume "n < k \<and> k < N"
          then have "k = Suc n \<or> (Suc n < k \<and> k < N)" by auto
          then show "\<not> is_new h it0 k" using old a by auto
        qed
        moreover have "ball_advance h (query_cell h it0) (ball_at h it0 n cur (cell_at h it0 ` {..n}))
                = Some (Inr (True, ball_at h it0 N cur (cell_at h it0 ` {..<N})))"
          using eq a by (simp only:)
        ultimately show ?thesis by (intro disjI2) blast
      qed
    qed
  qed
qed

lemma passes_ball_at [simp]: "passes (ball_at h it0 n cur S) = passes it0"
  by (rule ext) (simp add: passes_def r_sq_of_def)

lemma bond_of_ball_at [simp]: "bond_of (ball_at h it0 n cur S) = bond_of it0"
  by (rule ext) (simp add: bond_of_def r_sq_of_def)

lemma rest_out_none:
  assumes "\<forall>k. n < k \<and> k < N \<longrightarrow> \<not> is_new h it k"
  shows "rest_out h bk it n N = []"
proof -
  have "filter (is_new h it) [Suc n ..< N] = []" using assms by (auto simp: filter_empty_conv)
  then show ?thesis by (simp add: rest_out_def)
qed

lemma rest_out_first:
  assumes "n < m" "m < N" "is_new h it m" "\<forall>k. n < k \<and> k < m \<longrightarrow> \<not> is_new h it k"
  shows "rest_out h bk it n N = cell_out bk it (cell_at h it m) @ rest_out h bk it m N"
proof -
  have "[Suc n ..< N] = [Suc n ..< m] @ [m ..< N]"
    using upt_add_eq_append[of "Suc n" m "N - m"] assms(1,2) by simp
  moreover have "[m ..< N] = m # [Suc m ..< N]"
    using assms(2) by (simp add: upt_conv_Cons)
  ultimately have "[Suc n ..< N] = [Suc n ..< m] @ m # [Suc m ..< N]" by simp
  moreover have "filter (is_new h it) [Suc n ..< m] = []"
    using assms(4) by (auto simp: filter_empty_conv)
  ultimately show ?thesis using assms(3) by (simp add: rest_out_def)
qed

lemma ball_loop_run:
  assumes su: "ball_setup h bk it0 N"
    and n: "n < N"
    and ch: "chain (m_cell_list (m_linkcell it0)) cur js"
    and valid: "\<forall>j \<in> set js. unat j < length (m_points (m_linkcell it0))"
  shows "\<exists>nb it'. ball_loop h (query_cell h it0) (ball_at h it0 n cur (cell_at h it0 ` {..n}))
           = Some (Inr (nb, it'))
         \<and> (case map (bond_of it0) (filter (passes it0) js) @ rest_out h bk it0 n N of
               [] \<Rightarrow> nb = ITERATOR_TERMINATOR \<and> m_finished it'
             | b # out' \<Rightarrow> nb = b \<and> \<not> m_finished it'
                   \<and> ball_ready h bk it0 N it' (m_searched_cells it') out')"
  using n ch valid
proof (induction "N - n" arbitrary: n cur js rule: less_induct)
  case less
  let ?lc = "m_linkcell it0"
  let ?it = "ball_at h it0 n cur (cell_at h it0 ` {..n})"
  have ok: "shells_ok h (m_is2D (m_neigh_cell_iter it0))" and nf: "\<not> m_finished it0"
    using su by (simp_all add: ball_setup_def)
  have sc: "scan_cell ?it cur =
     Some (Inr (case dropWhile (\<lambda>j. \<not> passes it0 j) js of
                  [] \<Rightarrow> (None, LINK_CELL_TERMINATOR)
                | j # rest \<Rightarrow> (Some (bond_of it0 j), j)))"
    and rest: "\<forall>j rest. dropWhile (\<lambda>j. \<not> passes it0 j) js = j # rest \<longrightarrow> chain (m_cell_list ?lc) j rest"
    using scan_cell_chain[of ?it cur js] less.prems by (simp_all cong: list.case_cong)
  show ?case
  proof (cases "dropWhile (\<lambda>j. \<not> passes it0 j) js")
    case (Cons j rest')
    have pj: "passes it0 j" and sub: "set rest' \<subseteq> set js"
      using Cons by (auto simp: dropWhile_eq_Cons_conv) (metis Cons set_dropWhileD list.set_intros(2))
    have f: "filter (passes it0) js = j # filter (passes it0) rest'"
    proof -
      have "filter (passes it0) js = filter (passes it0) (dropWhile (\<lambda>j. \<not> passes it0 j) js)"
        by (induction js) auto
      then show ?thesis using Cons pj by simp
    qed
    have run: "ball_loop h (query_cell h it0) ?it = Some (Inr (bond_of it0 j, ball_at h it0 n j (cell_at h it0 ` {..n})))"
      by (subst ball_loop.simps) (simp add: sc Cons ball_at_updates)
    have "ball_ready h bk it0 N (ball_at h it0 n j (cell_at h it0 ` {..n})) (cell_at h it0 ` {..n})
            (map (bond_of it0) (filter (passes it0) rest') @ rest_out h bk it0 n N)"
      unfolding ball_ready_def using less.prems rest Cons sub
      by (intro exI[of _ n] exI[of _ j] exI[of _ rest']) auto
    then show ?thesis using run f nf by simp
  next
    case Nil
    then have f: "filter (passes it0) js = []"
      by (auto simp: dropWhile_eq_Nil_conv filter_empty_conv)
    have run0: "ball_loop h (query_cell h it0) ?it =
        Option.bind (ball_advance h (query_cell h it0)
                       (ball_at h it0 n LINK_CELL_TERMINATOR (cell_at h it0 ` {..n}))) (\<lambda>a.
             case a of
               Inl e \<Rightarrow> Some (Inl e)
             | Inr (out_of_range, it') \<Rightarrow>
                 if out_of_range
                 then Some (Inr (ITERATOR_TERMINATOR, it'\<lparr> m_finished := True \<rparr>))
                 else ball_loop h (query_cell h it0) it')"
      by (subst ball_loop.simps) (simp add: sc Nil ball_at_updates)
    have stop: "beyond it0 (m_range (shell_pos h (m_is2D (m_neigh_cell_iter it0)) N))"
      and before: "\<forall>m. n < m \<and> m < N \<longrightarrow> \<not> beyond it0 (m_range (shell_pos h (m_is2D (m_neigh_cell_iter it0)) m))"
      using su by (auto simp: ball_setup_def)
    from ball_advance_run[OF ok less.prems(1) stop before, of LINK_CELL_TERMINATOR]
    show ?thesis
    proof
      assume "\<exists>m>n. m < N \<and> is_new h it0 m \<and> (\<forall>k. n < k \<and> k < m \<longrightarrow> \<not> is_new h it0 k)
            \<and> ball_advance h (query_cell h it0) (ball_at h it0 n LINK_CELL_TERMINATOR (cell_at h it0 ` {..n}))
                = Some (Inr (False, ball_at h it0 m (itercell ?lc (cell_at h it0 m))
                                     (cell_at h it0 ` {..m})))"
      then obtain m where m: "n < m" "m < N" "is_new h it0 m"
        "\<forall>k. n < k \<and> k < m \<longrightarrow> \<not> is_new h it0 k"
        "ball_advance h (query_cell h it0) (ball_at h it0 n LINK_CELL_TERMINATOR (cell_at h it0 ` {..n}))
                = Some (Inr (False, ball_at h it0 m (itercell ?lc (cell_at h it0 m))
                                     (cell_at h it0 ` {..m})))" by blast
      have run: "ball_loop h (query_cell h it0) ?it
          = ball_loop h (query_cell h it0)
              (ball_at h it0 m (itercell ?lc (cell_at h it0 m)) (cell_at h it0 ` {..m}))"
        unfolding run0 m(5) by simp
      have bm: "chain (m_cell_list ?lc) (itercell ?lc (cell_at h it0 m)) (bk (cell_at h it0 m))"
        "\<forall>j \<in> set (bk (cell_at h it0 m)). unat j < length (m_points ?lc)"
        using su m(2) by (auto simp: ball_setup_def)
      have d: "N - m < N - n" using m(1,2) by simp
      have out: "map (bond_of it0) (filter (passes it0) js) @ rest_out h bk it0 n N
          = map (bond_of it0) (filter (passes it0) (bk (cell_at h it0 m))) @ rest_out h bk it0 m N"
        using rest_out_first[OF m(1,2,3,4), of bk] f by (simp add: cell_out_def)
      show ?thesis unfolding run out by (rule less.hyps[OF d m(2) bm])
    next
      assume a: "(\<forall>k. n < k \<and> k < N \<longrightarrow> \<not> is_new h it0 k)
            \<and> ball_advance h (query_cell h it0) (ball_at h it0 n LINK_CELL_TERMINATOR (cell_at h it0 ` {..n}))
                = Some (Inr (True, ball_at h it0 N LINK_CELL_TERMINATOR (cell_at h it0 ` {..<N})))"
      then have "rest_out h bk it0 n N = []" by (intro rest_out_none) simp
      moreover have "ball_loop h (query_cell h it0) ?it
          = Some (Inr (ITERATOR_TERMINATOR,
               (ball_at h it0 N LINK_CELL_TERMINATOR (cell_at h it0 ` {..<N}))\<lparr> m_finished := True \<rparr>))"
        unfolding run0 using a by simp
      ultimately show ?thesis using f by simp
    qed
  qed
qed

lemma vec_plus_zero [simp]: "vec_plus p zero_offset = p"
  by (simp add: vec_plus_def zero_offset_def)

lemma cell_at_0:
  assumes "shells_ok h (m_is2D (m_neigh_cell_iter it))"
  shows "cell_at h it 0
     = getCell_of h (LinkCell.m_box (m_linkcell it)) (m_celldim (m_linkcell it)) (m_query_point it)"
  using assms
  by (simp add: cell_at_def shell_pos_0 IteratorCellShell_ctor_def shells_ok_def getCell_of_def
        point_cell_of_def query_cell_def)

lemma ball_next_run:
  assumes su: "ball_setup h bk it0 N"
    and ready: "ball_ready h bk it0 N it (m_searched_cells it) out"
  shows "\<exists>nb it'. LinkCellQueryBallIterator_next h it = Some (Inr (nb, it'))
         \<and> (case out of
               [] \<Rightarrow> nb = ITERATOR_TERMINATOR \<and> m_finished it'
             | b # out' \<Rightarrow> nb = b \<and> \<not> m_finished it'
                   \<and> ball_ready h bk it0 N it' (m_searched_cells it') out')"
proof -
  let ?b = "m_is2D (m_neigh_cell_iter it0)"
  from ready obtain n cur js where r: "n < N" "it = ball_at h it0 n cur (m_searched_cells it)"
    "insert (cell_at h it0 n) (m_searched_cells it) = cell_at h it0 ` {..n}"
    "chain (m_cell_list (m_linkcell it0)) cur js"
    "\<forall>j \<in> set js. unat j < length (m_points (m_linkcell it0))"
    "out = map (bond_of it0) (filter (passes it0) js) @ rest_out h bk it0 n N"
    unfolding ball_ready_def by blast
  have ok: "shells_ok h ?b" using su by (simp add: ball_setup_def)
  have d: "shell_deref h (shell_pos h ?b n)
     = Inr (cell_shell h ?b (m_range (shell_pos h ?b n)) ! m_offset (shell_pos h ?b n))"
    by (rule shell_deref_pos[OF ok])
  have b: "m_is2D (shell_pos h ?b n) = ?b" using shell_pos_inv[OF ok] by simp
  have pc: "query_cell h (ball_at h it0 n cur S) = query_cell h it0" for S
    by (simp add: query_cell_def)
  have c: "getCellIndex h (m_celldim (m_linkcell it0))
             (vec_plus (query_cell h it0)
                (cell_shell h ?b (m_range (shell_pos h ?b n)) ! m_offset (shell_pos h ?b n)))
           = cell_at h it0 n"
    by (simp add: cell_at_def Let_def b)
  have "LinkCellQueryBallIterator_next h (ball_at h it0 n cur (m_searched_cells it))
      = ball_loop h (query_cell h it0) (ball_at h it0 n cur (cell_at h it0 ` {..n}))"
    unfolding LinkCellQueryBallIterator_next_def
    by (simp add: Let_def d c r(3) ball_at_updates query_cell_def[symmetric] pc)
  then have "LinkCellQueryBallIterator_next h it
      = ball_loop h (query_cell h it0) (ball_at h it0 n cur (cell_at h it0 ` {..n}))"
    using r(2) by simp
  then show ?thesis using ball_loop_run[OF su r(1) r(4) r(5)] r(6) by simp
qed

lemma ball_query_run:
  assumes su: "ball_setup h bk it0 N"
    and ready: "ball_ready h bk it0 N it (m_searched_cells it) out"
  shows "ball_query h it = Some (Inr out)"
  using ready
proof (induction out arbitrary: it)
  case Nil
  from ball_next_run[OF su Nil] obtain nb it' where
    "LinkCellQueryBallIterator_next h it = Some (Inr (nb, it'))" "m_finished it'" by auto
  then show ?case by (subst ball_query.simps) simp
next
  case (Cons b out)
  from ball_next_run[OF su Cons.prems] obtain nb it' where n:
    "LinkCellQueryBallIterator_next h it = Some (Inr (nb, it'))" "nb = b" "\<not> m_finished it'"
    "ball_ready h bk it0 N it' (m_searched_cells it') out" by auto
  have "ball_query h it' = Some (Inr out)" by (rule Cons.IH[OF n(4)])
  then show ?case using n by (subst ball_query.simps) simp
qed

lemma ball_query_initial:
  assumes su: "ball_setup h bk it0 N"
    and init: "m_neigh_cell_iter it0 = IteratorCellShell_ctor 0 b"
      "m_searched_cells it0 = {}"
      "m_cell_iter it0 = itercell (m_linkcell it0)
         (getCell_of h (LinkCell.m_box (m_linkcell it0)) (m_celldim (m_linkcell it0)) (m_query_point it0))"
  shows "ball_query h it0 = Some (Inr (all_out h bk it0 N))"
proof -
  have b: "m_is2D (m_neigh_cell_iter it0) = b" using init(1) by (simp add: IteratorCellShell_ctor_def)
  have ok: "shells_ok h b" and N: "0 < N" using su b by (auto simp: ball_setup_def)
  have c0: "cell_at h it0 0
      = getCell_of h (LinkCell.m_box (m_linkcell it0)) (m_celldim (m_linkcell it0)) (m_query_point it0)"
    using cell_at_0[of h it0] ok b by simp
  have "it0\<lparr> m_neigh_cell_iter := m_neigh_cell_iter it0 \<rparr> = it0" by simp
  then have e: "it0 = ball_at h it0 0 (m_cell_iter it0) (m_searched_cells it0)"
    unfolding ball_at_def shell_pos_0 b by (simp add: init(1)[symmetric])
  have bk0: "chain (m_cell_list (m_linkcell it0)) (m_cell_iter it0) (bk (cell_at h it0 0))"
    "\<forall>j \<in> set (bk (cell_at h it0 0)). unat j < length (m_points (m_linkcell it0))"
    using su N init(3) c0 by (auto simp: ball_setup_def)
  have new0: "is_new h it0 0" by (simp add: is_new_def)
  have "[0 ..< N] = 0 # [Suc 0 ..< N]" using N by (simp add: upt_conv_Cons)
  then have out: "all_out h bk it0 N
      = map (bond_of it0) (filter (passes it0) (bk (cell_at h it0 0))) @ rest_out h bk it0 0 N"
    using new0 by (simp add: all_out_def rest_out_def cell_out_def)
  have "ball_ready h bk it0 N it0 (m_searched_cells it0) (all_out h bk it0 N)"
    unfolding ball_ready_def
  proof (rule exI[of _ "0::nat"], rule exI[of _ "m_cell_iter it0"],
         rule exI[of _ "bk (cell_at h it0 0)"], intro conjI)
    show "0 < N" by (rule N)
    show "it0 = ball_at h it0 0 (m_cell_iter it0) (m_searched_cells it0)" by (rule e)
    show "insert (cell_at h it0 0) (m_searched_cells it0) = cell_at h it0 ` {..0}"
      by (simp add: init(2))
    show "chain (m_cell_list (m_linkcell it0)) (m_cell_iter it0) (bk (cell_at h it0 0))"
      by (rule bk0(1))
    show "\<forall>j \<in> set (bk (cell_at h it0 0)). unat j < length (m_points (m_linkcell it0))"
      by (rule bk0(2))
    show "all_out h bk it0 N
      = map (bond_of it0) (filter (passes it0) (bk (cell_at h it0 0))) @ rest_out h bk it0 0 N"
      by (rule out)
  qed
  then show ?thesis by (rule ball_query_run[OF su])
qed

lemma first_occurrence:
  assumes "m < N"
  shows "\<exists>k \<le> m. is_new h it k \<and> cell_at h it k = cell_at h it m"
  using assms
proof (induction m rule: less_induct)
  case (less m)
  show ?case
  proof (cases "is_new h it m")
    case True
    then show ?thesis by auto
  next
    case False
    then obtain k where k: "k < m" "cell_at h it k = cell_at h it m"
      by (auto simp: is_new_def)
    then have "k < N" using less.prems by simp
    from less.IH[OF k(1) this] obtain k' where "k' \<le> k" "is_new h it k'"
      "cell_at h it k' = cell_at h it k" by blast
    then show ?thesis using k by (intro exI[of _ k']) auto
  qed
qed

lemma set_all_out:
  "set (all_out h bk it N)
     = {bond_of it j | j m. m < N \<and> j \<in> set (bk (cell_at h it m)) \<and> passes it j}"
proof (intro set_eqI iffI)
  fix x assume "x \<in> set (all_out h bk it N)"
  then show "x \<in> {bond_of it j | j m. m < N \<and> j \<in> set (bk (cell_at h it m)) \<and> passes it j}"
    by (auto simp: all_out_def cell_out_def)
next
  fix x assume "x \<in> {bond_of it j | j m. m < N \<and> j \<in> set (bk (cell_at h it m)) \<and> passes it j}"
  then obtain j m where x: "x = bond_of it j" "m < N" "j \<in> set (bk (cell_at h it m))" "passes it j"
    by blast
  from first_occurrence[OF x(2), of h it] obtain k where
    k: "k \<le> m" "is_new h it k" "cell_at h it k = cell_at h it m" by blast
  then have kN: "k < N" using x(2) by simp
  have "x \<in> set (cell_out bk it (cell_at h it k))"
    using x k(3) by (simp add: cell_out_def)
  moreover have "k \<in> set (filter (is_new h it) [0 ..< N])" using kN k(2) by simp
  ultimately show "x \<in> set (all_out h bk it N)"
    unfolding all_out_def set_concat set_map by blast
qed

lemma unat_add_nat:
  assumes "unat (n :: 32 word) + c < 2 ^ 32"
  shows "unat (n + of_nat c) = unat n + c"
proof -
  have "c < 2 ^ 32" using assms by simp
  then have "unat (of_nat c :: 32 word) = c" by (simp add: unat_of_nat)
  then show ?thesis using assms by (simp add: unat_word_ariths)
qed

lemma unat_add_word:
  assumes "unat (n :: 32 word) + unat (c :: 32 word) < 2 ^ 32"
  shows "unat (n + c) = unat n + unat c"
  using assms by (simp add: unat_word_ariths)

lemma init_cells_ok:
  assumes "\<forall>c \<in> set cs. unat n + c < length cl \<and> unat n + c < 2 ^ 32"
  shows "\<exists>cl'. init_cells n cs cl = Inr cl' \<and> length cl' = length cl
     \<and> (\<forall>i. cl ! i = LINK_CELL_TERMINATOR \<longrightarrow> cl' ! i = LINK_CELL_TERMINATOR)
     \<and> (\<forall>c \<in> set cs. cl' ! (unat n + c) = LINK_CELL_TERMINATOR)"
  using assms
proof (induction cs arbitrary: cl)
  case Nil
  then show ?case by simp
next
  case (Cons c cs)
  let ?cl1 = "cl[unat n + c := LINK_CELL_TERMINATOR]"
  have c: "unat n + c < length cl" "unat (n + of_nat c) = unat n + c"
    using Cons.prems by (simp_all add: unat_add_nat)
  have "\<forall>c \<in> set cs. unat n + c < length ?cl1 \<and> unat n + c < 2 ^ 32" using Cons.prems by simp
  from Cons.IH[OF this] obtain cl' where cl': "init_cells n cs ?cl1 = Inr cl'"
    "length cl' = length ?cl1"
    "\<forall>i. ?cl1 ! i = LINK_CELL_TERMINATOR \<longrightarrow> cl' ! i = LINK_CELL_TERMINATOR"
    "\<forall>c \<in> set cs. cl' ! (unat n + c) = LINK_CELL_TERMINATOR" by blast
  have 1: "init_cells n (c # cs) cl = Inr cl'" using c cl'(1) by (simp add: array_set_def)
  have 2: "\<forall>i. cl ! i = LINK_CELL_TERMINATOR \<longrightarrow> cl' ! i = LINK_CELL_TERMINATOR"
    using cl'(3) c(1) by (auto simp: nth_list_update)
  have 3: "cl' ! (unat n + c) = LINK_CELL_TERMINATOR" using cl'(3) c(1) by simp
  show ?case using 1 2 3 cl'(2,4) by auto
qed

lemma chain_update:
  assumes "chain cl cur js" "unat cur \<noteq> p" "\<forall>j \<in> set js. unat j \<noteq> p"
  shows "chain (cl[p := v]) cur js"
  using assms
proof (induction rule: chain.induct)
  case (chain_end cur)
  then show ?case by (auto intro: chain.chain_end)
next
  case (chain_step cur j js)
  then show ?case by (auto intro!: chain.chain_step)
qed

lemma bucket_from_elem:
  assumes "j \<in> set (bucket_from g ps n i c)" "n < 2 ^ 32"
  shows "i \<le> unat j \<and> unat j < n \<and> g (ps ! unat j) = c \<and> j = of_nat (unat j)"
proof -
  from assms(1) obtain m where m: "j = of_nat m" "i \<le> m" "m < n" "g (ps ! m) = c"
    by (auto simp: bucket_from_def)
  have "unat j = m" using m(1,3) assms(2) by (simp add: unat_of_nat)
  then show ?thesis using m by simp
qed

lemma bucket_from_step:
  assumes "k < n"
  shows "bucket_from g ps n k c
     = (if g (ps ! k) = c then of_nat k # bucket_from g ps n (Suc k) c
        else bucket_from g ps n (Suc k) c)"
  using assms by (simp add: bucket_from_def upt_conv_Cons)

lemma rev_upto_Suc: "rev [0 .. int (Suc k) - 1] = int k # rev [0 .. int k - 1]"
proof -
  have "[0 .. int k] = [0 .. int k - 1] @ [int k]" by (simp add: upto_rec2)
  then show ?thesis by simp
qed

lemma fill_cells_step:
  assumes inv: "cells_linked g ps n K (Suc k) cl"
    and k: "Suc k \<le> unat n" "unat n < 2 ^ 31" "unat n + K < 2 ^ 32" "unat n \<le> length ps"
    and valid: "unat (g (ps ! k)) < K"
  shows "\<exists>cl'. fill_cells g ps n (int k # idxs) cl = fill_cells g ps n idxs cl'
           \<and> cells_linked g ps n K k cl'"
proof -
  let ?N = "unat n" and ?cell = "g (ps ! k)"
  let ?hi = "unat (n + ?cell)"
  let ?cl1 = "cl[k := cl ! ?hi]"
  let ?cl2 = "?cl1[?hi := of_nat k]"
  have len: "length cl = ?N + K" using inv by (simp add: cells_linked_def)
  have hi: "?hi = ?N + unat ?cell" using valid k(3) by (intro unat_add_word) simp
  have hlt: "?hi < length cl" using hi len valid by simp
  have klt: "k < length cl" "k < length ps" "k < ?N" "k \<noteq> ?hi" using k len hi by simp_all
  have run: "fill_cells g ps n (int k # idxs) cl = fill_cells g ps n idxs ?cl2"
    using hlt klt by (simp add: array_get_def array_set_def Let_def)
  have uk: "unat (of_nat k :: 32 word) = k" using klt(3) k(2) by (simp add: unat_of_nat)
  have kterm: "(of_nat k :: 32 word) \<noteq> LINK_CELL_TERMINATOR"
  proof
    assume "(of_nat k :: 32 word) = LINK_CELL_TERMINATOR"
    then have "unat (of_nat k :: 32 word) = unat LINK_CELL_TERMINATOR" by simp
    then show False using uk klt(3) k(2) by (simp add: LINK_CELL_TERMINATOR_def)
  qed
  have N32: "?N < 2 ^ 32" using k(2) by simp
  have keep: "chain ?cl2 cur L"
    if ch: "chain cl cur L" and c1: "unat cur \<noteq> k" "unat cur \<noteq> ?hi"
      and el: "\<forall>j \<in> set L. Suc k \<le> unat j \<and> unat j < ?N" for cur L
  proof -
    have 1: "chain ?cl1 cur L" by (rule chain_update[OF ch c1(1)]) (use el in auto)
    show ?thesis by (rule chain_update[OF 1 c1(2)]) (use el hi in auto)
  qed
  have "chain ?cl2 (n + c) (bucket_from g ps ?N k c)" if c: "unat c < K" for c
  proof -
    let ?L = "bucket_from g ps ?N (Suc k) c"
    have old: "chain cl (n + c) ?L" using inv c by (simp add: cells_linked_def)
    have el: "\<forall>j \<in> set ?L. Suc k \<le> unat j \<and> unat j < ?N"
      using bucket_from_elem[OF _ N32] by blast
    have pos: "unat (n + c) = ?N + unat c" using c k(3) by (intro unat_add_word) simp
    show ?thesis
    proof (cases "?cell = c")
      case False
      then have "unat c \<noteq> unat ?cell" by (simp add: word_unat_eq_iff)
      then have "chain ?cl2 (n + c) ?L" using pos hi klt by (intro keep[OF old _ _ el]) simp_all
      then show ?thesis using False klt(3) by (simp add: bucket_from_step)
    next
      case True
      have b: "bucket_from g ps ?N k c = of_nat k # ?L" using True klt(3) by (simp add: bucket_from_step)
      have pk: "unat (n + c) = ?hi" using True by simp
      have h2: "?cl2 ! ?hi = of_nat k" using hlt by simp
      have k2: "?cl2 ! k = cl ! ?hi" using klt by simp
      have tail: "chain ?cl2 (of_nat k) ?L"
        using old
      proof (cases rule: chain.cases)
        case chain_end
        then have "?cl2 ! unat (of_nat k :: 32 word) = LINK_CELL_TERMINATOR"
          using k2 pk uk by simp
        then show ?thesis using chain_end(1) uk klt(1)
          by (intro chain.chain_end[of "of_nat k" ?cl2, simplified chain_end(1)[symmetric]]) simp_all
      next
        case (chain_step j js)
        have elj: "\<forall>j' \<in> set (j # js). Suc k \<le> unat j' \<and> unat j' < ?N"
          using el chain_step(1) by simp
        then have "unat j \<noteq> k" "unat j \<noteq> ?hi" using hi by auto
        then have "chain ?cl2 j js" using elj by (intro keep[OF chain_step(5)]) simp_all
        moreover have "?cl2 ! unat (of_nat k :: 32 word) = j" using k2 pk uk chain_step(3) by simp
        ultimately show ?thesis using chain_step(1,4) uk klt(1)
          by (simp only:) (rule chain.chain_step, simp_all)
      qed
      have "chain ?cl2 (n + c) (of_nat k # ?L)"
        using tail h2 kterm hlt pk by (intro chain.chain_step) simp_all
      then show ?thesis using b by simp
    qed
  qed
  then have "cells_linked g ps n K k ?cl2" using len by (simp add: cells_linked_def)
  then show ?thesis using run by blast
qed

lemma sint_pred:
  assumes "n \<noteq> 0" "unat (n :: 32 word) < 2 ^ 31"
  shows "sint (n - 1) = int (unat n) - 1"
proof -
  have u: "unat (n - 1) = unat n - 1" using assms(1) by (rule unat_minus_one)
  have "int (unat (n - 1)) < int (2 ^ 31)" unfolding u using assms(2) by linarith
  then have lt: "uint (n - 1) < 2 ^ 31" by (simp only: uint_nat[symmetric] of_nat_power of_nat_numeral)
  have "signed_take_bit 31 (uint (n - 1)) = uint (n - 1)"
  proof (rule signed_take_bit_int_eq_self)
    have "- (2 ^ 31) \<le> (0::int)" by simp
    moreover have "(0::int) \<le> uint (n - 1)" by simp
    ultimately show "- (2 ^ 31) \<le> uint (n - 1)" by (rule order_trans)
    show "uint (n - 1) < 2 ^ 31" by (rule lt)
  qed
  then have s: "sint (n - 1) = uint (n - 1)" by (simp add: sint_uint)
  have "0 < unat n" using assms(1) by (simp add: unat_gt_0)
  then have "int (unat n - 1) = int (unat n) - 1" by linarith
  then show ?thesis unfolding s uint_nat u .
qed

lemma fill_cells_loop:
  assumes inv: "cells_linked g ps n K i cl"
    and k: "i \<le> unat n" "unat n < 2 ^ 31" "unat n + K < 2 ^ 32" "unat n \<le> length ps"
    and valid: "\<forall>j < unat n. unat (g (ps ! j)) < K"
  shows "\<exists>cl'. fill_cells g ps n (rev [0 .. int i - 1]) cl = Inr cl' \<and> cells_linked g ps n K 0 cl'"
  using inv k(1)
proof (induction i arbitrary: cl)
  case 0
  have "rev [0 .. int 0 - 1] = []" by simp
  then have "fill_cells g ps n (rev [0 .. int 0 - 1]) cl = Inr cl" by (simp only: fill_cells.simps)
  then show ?case using 0(1) by blast
next
  case (Suc i)
  have v: "unat (g (ps ! i)) < K" using valid Suc.prems(2) by simp
  from fill_cells_step[OF Suc.prems(1) Suc.prems(2) k(2,3,4) v, of "rev [0 .. int i - 1]"]
  obtain cl1 where 1: "fill_cells g ps n (int i # rev [0 .. int i - 1]) cl
        = fill_cells g ps n (rev [0 .. int i - 1]) cl1" "cells_linked g ps n K i cl1" by blast
  have "i \<le> unat n" using Suc.prems(2) by simp
  from Suc.IH[OF 1(2) this] obtain cl' where
    2: "fill_cells g ps n (rev [0 .. int i - 1]) cl1 = Inr cl'" "cells_linked g ps n K 0 cl'" by blast
  have "fill_cells g ps n (rev [0 .. int (Suc i) - 1]) cl = Inr cl'"
    unfolding rev_upto_Suc 1(1) by (rule 2(1))
  then show ?case using 2(2) by blast
qed

lemma computeCellList_ok:
  assumes n0: "n \<noteq> 0"
    and k: "unat n < 2 ^ 31" "unat n + unat (m_size lc0) < 2 ^ 32" "unat n \<le> length ps"
    and valid: "\<forall>j < unat n. unat (g (ps ! j)) < unat (m_size lc0)"
  shows "\<exists>cl. computeCellList g lc0 ps n
            = (None, lc0\<lparr> m_cell_list := cl, m_n_points := n, m_Nc := m_size lc0 \<rparr>)
         \<and> cells_linked g ps n (unat (m_size lc0)) 0 cl"
proof -
  define K where "K = unat (m_size lc0)"
  define N where "N = unat n"
  define cl0 where "cl0 = replicate (unat (n + m_size lc0)) (0 :: 32 word)"
  have sum: "unat (n + m_size lc0) = N + K"
    unfolding N_def K_def by (rule unat_add_word) (rule k(2))
  have len0: "length cl0 = N + K" unfolding cl0_def using sum by simp
  have NK: "N + K < 2 ^ 32" unfolding N_def K_def by (rule k(2))
  have pre: "\<forall>c \<in> set [0 ..< K]. unat n + c < length cl0 \<and> unat n + c < 2 ^ 32"
    using NK len0 unfolding N_def by simp
  from init_cells_ok[OF pre] obtain cl1 where cl1: "init_cells n [0 ..< K] cl0 = Inr cl1"
    "length cl1 = length cl0" "\<forall>c \<in> set [0 ..< K]. cl1 ! (unat n + c) = LINK_CELL_TERMINATOR"
    by blast
  have inv: "cells_linked g ps n K (unat n) cl1"
    unfolding cells_linked_def
  proof (intro conjI allI impI)
    show "length cl1 = unat n + K" using cl1(2) len0 unfolding N_def by simp
    fix c :: "32 word" assume c: "unat c < K"
    have "unat n + unat c < 2 ^ 32" using c NK unfolding N_def by simp
    then have pos: "unat (n + c) = unat n + unat c" by (rule unat_add_word)
    have b: "bucket_from g ps (unat n) (unat n) c = []" by (simp add: bucket_from_def)
    have 1: "unat (n + c) < length cl1" unfolding pos using c cl1(2) len0 N_def by simp
    have 2: "cl1 ! unat (n + c) = LINK_CELL_TERMINATOR" unfolding pos using c cl1(3) by simp
    show "chain cl1 (n + c) (bucket_from g ps (unat n) (unat n) c)"
      unfolding b using 1 2 by (rule chain.chain_end)
  qed
  have valid': "\<forall>j < unat n. unat (g (ps ! j)) < K" using valid unfolding K_def .
  have NK': "unat n + K < 2 ^ 32" using NK unfolding N_def .
  from fill_cells_loop[OF inv order_refl k(1) NK' k(3) valid'] obtain cl' where
    cl': "fill_cells g ps n (rev [0 .. int (unat n) - 1]) cl1 = Inr cl'"
    "cells_linked g ps n K 0 cl'"
    by blast
  have s: "sint (n - 1) = int (unat n) - 1" using n0 k(1) by (rule sint_pred)
  have "computeCellList g lc0 ps n
      = (None, lc0\<lparr> m_cell_list := cl', m_n_points := n, m_Nc := m_size lc0 \<rparr>)"
    unfolding computeCellList_def getNumCells_def Let_def s
    using n0 cl1(1) cl'(1) unfolding cl0_def K_def by simp
  then show ?thesis using cl'(2) unfolding K_def by blast
qed

lemma LinkCell_ctor_run:
  assumes "LinkCell_ctor gc box cw ps n = Inr lc"
  shows "\<exists>celldim sz. computeCellList (gc box celldim)
            \<lparr> LinkCell.m_box = box, m_points = ps, m_n_points = 0, m_cell_width = cw,
              m_celldim = celldim, m_size = sz, m_Nc = 0, m_cell_list = [],
              m_cell_neighbors = Map.empty \<rparr> ps n = (None, lc)"
proof (cases "computeDimensions box cw")
  case (Inl e)
  then show ?thesis using assms by (simp add: LinkCell_ctor_def)
next
  case (Inr celldim0)
  define celldim where "celldim = (if is2D box then celldim0\<lparr> vec_z := 1 \<rparr> else celldim0)"
  define sz where "sz = vec_x celldim * vec_y celldim * vec_z celldim"
  define lc0 where "lc0 = \<lparr> LinkCell.m_box = box, m_points = ps, m_n_points = 0, m_cell_width = cw,
              m_celldim = celldim, m_size = sz, m_Nc = 0, m_cell_list = [],
              m_cell_neighbors = Map.empty \<rparr>"
  obtain r lc' where r: "computeCellList (gc box celldim) lc0 ps n = (r, lc')"
    by (cases "computeCellList (gc box celldim) lc0 ps n")
  have eq: "LinkCell_ctor gc box cw ps n =
      (if box_too_small box cw
       then Inl (runtime_error
             ''Cannot generate a cell list where cell_width is larger than half the box.'')
       else if sz < 1 then Inl (runtime_error ''At least one cell must be present.'')
       else case computeCellList (gc box celldim) lc0 ps n of
            (Some e, lc) \<Rightarrow> Inl e | (None, lc) \<Rightarrow> Inr lc)"
    by (simp only: LinkCell_ctor_def Inr Let_def celldim_def sz_def lc0_def sum.case)
  have "(case computeCellList (gc box celldim) lc0 ps n of
            (Some e, lc) \<Rightarrow> Inl e | (None, lc) \<Rightarrow> Inr lc) = Inr lc"
    using assms unfolding eq by (simp split: if_splits)
  then have "r = None \<and> lc' = lc" unfolding r by (cases r) simp_all
  then show ?thesis using r unfolding lc0_def by blast
qed

lemma LinkCell_ctor_linked:
  assumes ctor: "LinkCell_ctor gc box cw ps n = Inr lc"
    and k: "unat n < 2 ^ 31" "unat n + unat (m_size lc) < 2 ^ 32" "unat n \<le> length ps"
    and valid: "\<forall>j < unat n. unat (gc box (m_celldim lc) (ps ! j)) < unat (m_size lc)"
  shows "LinkCell.m_box lc = box \<and> m_points lc = ps \<and> m_n_points lc = n \<and> m_cell_width lc = cw
     \<and> n \<noteq> 0
     \<and> cells_linked (gc box (m_celldim lc)) ps n (unat (m_size lc)) 0 (m_cell_list lc)"
proof -
  from LinkCell_ctor_run[OF ctor] obtain celldim sz where
    run: "computeCellList (gc box celldim)
            \<lparr> LinkCell.m_box = box, m_points = ps, m_n_points = 0, m_cell_width = cw,
              m_celldim = celldim, m_size = sz, m_Nc = 0, m_cell_list = [],
              m_cell_neighbors = Map.empty \<rparr> ps n = (None, lc)" by blast
  define lc0 where "lc0 = \<lparr> LinkCell.m_box = box, m_points = ps, m_n_points = 0, m_cell_width = cw,
              m_celldim = celldim, m_size = sz, m_Nc = 0, m_cell_list = [],
              m_cell_neighbors = Map.empty \<rparr>"
  have run': "computeCellList (gc box celldim) lc0 ps n = (None, lc)" using run unfolding lc0_def .
  have n0: "n \<noteq> 0"
  proof
    assume "n = 0"
    then show False using run' by (simp add: computeCellList_def)
  qed
  have f0: "m_celldim lc = m_celldim lc0 \<and> m_size lc = m_size lc0"
    using run' n0 unfolding computeCellList_def getNumCells_def Let_def
    by (auto split: sum.splits)
  have f: "m_celldim lc = celldim" "m_size lc = sz" "m_size lc0 = sz"
    using f0 unfolding lc0_def by simp_all
  have k': "unat n + unat (m_size lc0) < 2 ^ 32" using k(2) f by simp
  have v': "\<forall>j < unat n. unat (gc box celldim (ps ! j)) < unat (m_size lc0)"
    using valid f by simp
  from computeCellList_ok[OF n0 k(1) k' k(3) v'] obtain cl where
    cl: "computeCellList (gc box celldim) lc0 ps n
            = (None, lc0\<lparr> m_cell_list := cl, m_n_points := n, m_Nc := m_size lc0 \<rparr>)"
      "cells_linked (gc box celldim) ps n (unat (m_size lc0)) 0 cl" by blast
  have lc2: "lc = lc0\<lparr> m_cell_list := cl, m_n_points := n, m_Nc := m_size lc0 \<rparr>"
    using run' cl(1) by simp
  have "m_cell_list lc = cl" "LinkCell.m_box lc = box" "m_points lc = ps" "m_n_points lc = n"
    "m_cell_width lc = cw"
    unfolding lc2 lc0_def by simp_all
  then show ?thesis using cl(2) n0 f by simp
qed

lemma ilog2_gt: "n < 2 * 2 ^ ilog2 n"
proof (induction n rule: ilog2.induct)
  case (1 n)
  show ?case
  proof (cases "n < 2")
    case True
    then show ?thesis by (simp add: ilog2.simps)
  next
    case False
    then have "n div 2 < 2 * 2 ^ ilog2 (n div 2)" using 1 by simp
    then have "n div 2 + 1 \<le> 2 * 2 ^ ilog2 (n div 2)" by simp
    then have "2 * (n div 2 + 1) \<le> 2 * (2 * 2 ^ ilog2 (n div 2))" by simp
    moreover have "n < 2 * (n div 2 + 1)" by simp
    ultimately have "n < 2 * (2 * 2 ^ ilog2 (n div 2))" by (rule less_le_trans[rotated])
    then show ?thesis using False by (subst ilog2.simps) simp
  qed
qed

lemma to_float_ge_pow:
  assumes "1 \<le> x"
  shows "2 ^ ilog2 (nat \<lfloor>x\<rfloor>) \<le> to_float x"
proof -
  define n where "n = nat \<lfloor>x\<rfloor>"
  define e where "e = int (ilog2 n)"
  define u where "u = pow2 (e - 23)"
  have n: "0 < n" "real n \<le> x" using assms unfolding n_def by (simp_all add: le_floor_iff)
  have ex: "float_exponent \<bar>x\<bar> = e" using assms unfolding float_exponent_def e_def n_def by simp
  have pe2: "pow2 e = 2 ^ ilog2 n" unfolding e_def pow2_def by simp
  also have "\<dots> \<le> real n" using ilog2_le[OF n(1)]
    by (metis of_nat_le_iff of_nat_numeral of_nat_power)
  finally have pe: "pow2 e \<le> x" using n(2) by simp
  have up: "0 < u" unfolding u_def by (rule pow2_pos)
  have split: "pow2 e = u * 2 ^ 23"
    using pow2_add[of "e - 23" 23] unfolding u_def by (simp add: pow2_def)
  then have "2 ^ 23 \<le> x / u" using pe up by (simp add: le_divide_eq mult.commute)
  then have "(2 ^ 23 :: int) \<le> \<lfloor>x / u\<rfloor>" by (simp add: le_floor_iff)
  then have "(2 ^ 23 :: int) \<le> round_even (x / u)" using round_even_ge[of "x / u"] by linarith
  then have "(2 ^ 23 :: real) \<le> of_int (round_even (x / u))"
    by (metis of_int_le_iff of_int_numeral of_int_power)
  then have "2 ^ 23 * u \<le> of_int (round_even (x / u)) * u" using up by simp
  then have "pow2 e \<le> of_int (round_even (x / u)) * u"
    using split by (simp add: mult.commute)
  moreover have "to_float x = of_int (round_even (x / u)) * u"
    using assms unfolding to_float_def ex u_def Let_def by simp
  ultimately show ?thesis unfolding pe2 n_def by simp
qed

lemma to_float_half:
  assumes "1 \<le> x"
  shows "x / 2 < to_float x"
proof -
  define n where "n = nat \<lfloor>x\<rfloor>"
  have "n < 2 * 2 ^ ilog2 n" by (rule ilog2_gt)
  then have "n + 1 \<le> 2 * 2 ^ ilog2 n" by simp
  then have "real (n + 1) \<le> real (2 * 2 ^ ilog2 n)" by (simp only: of_nat_le_iff)
  then have le: "real n + 1 \<le> 2 * 2 ^ ilog2 n" by simp
  have "x < real n + 1" using assms unfolding n_def by linarith
  then have "x < 2 * 2 ^ ilog2 n" using le by linarith
  then have "x / 2 < 2 ^ ilog2 n" by simp
  then show ?thesis using to_float_ge_pow[OF assms] unfolding n_def by linarith
qed

lemma ball_ctor_fields [simp]:
  "m_linkcell (LinkCellQueryBallIterator_ctor h lc q qi r_max r_min excl) = lc"
  "m_query_point (LinkCellQueryBallIterator_ctor h lc q qi r_max r_min excl) = q"
  "m_query_point_idx (LinkCellQueryBallIterator_ctor h lc q qi r_max r_min excl) = qi"
  "LinkCellIterator.m_r_max (LinkCellQueryBallIterator_ctor h lc q qi r_max r_min excl) = r_max"
  "m_r_min (LinkCellQueryBallIterator_ctor h lc q qi r_max r_min excl) = r_min"
  "m_exclude_ii (LinkCellQueryBallIterator_ctor h lc q qi r_max r_min excl) = excl"
  "m_neigh_cell_iter (LinkCellQueryBallIterator_ctor h lc q qi r_max r_min excl)
     = IteratorCellShell_ctor 0 (is2D (LinkCell.m_box lc))"
  "m_cell_iter (LinkCellQueryBallIterator_ctor h lc q qi r_max r_min excl)
     = itercell lc (getCell_of h (LinkCell.m_box lc) (m_celldim lc) q)"
  "m_searched_cells (LinkCellQueryBallIterator_ctor h lc q qi r_max r_min excl) = {}"
  "m_finished (LinkCellQueryBallIterator_ctor h lc q qi r_max r_min excl) = False"
  "m_extra_search_width (LinkCellQueryBallIterator_ctor h lc q qi r_max r_min excl)
     = search_width h lc r_max"
  by (simp_all add: LinkCellQueryBallIterator_ctor_def LinkCellIterator_ctor_def
        LinkCellIterator.extend_def LinkCellQueryBallIterator.fields_def)

lemma beyond_ex:
  assumes cw: "0 < getCellWidth (m_linkcell it)"
  shows "\<exists>r > 0. beyond it r"
proof -
  define cw where "cw = getCellWidth (m_linkcell it)"
  define B where "B = max 1 (2 * LinkCellIterator.m_r_max it + 2)"
  define A where "A = B / cw"
  define k where "k = max (2 * \<lceil>A\<rceil> + 2) (max 1 (1 - m_extra_search_width it))"
  define r where "r = nat (k + m_extra_search_width it)"
  have pos: "0 < cw" using cw unfolding cw_def .
  have B1: "1 \<le> B" "2 * LinkCellIterator.m_r_max it + 2 \<le> B" unfolding B_def by simp_all
  have k1: "1 \<le> k" "1 - m_extra_search_width it \<le> k" "2 * \<lceil>A\<rceil> + 2 \<le> k"
    unfolding k_def by simp_all
  have rk: "int r - m_extra_search_width it = k" unfolding r_def using k1(2) by simp
  have r0: "0 < r" unfolding r_def using k1(2) by simp
  have ok1: "(1 :: real) \<le> of_int k" using k1(1) by simp
  have c1: "A \<le> of_int \<lceil>A\<rceil>" by simp
  have "(of_int (2 * \<lceil>A\<rceil> + 2) :: real) \<le> of_int k" using k1(3) by (simp only: of_int_le_iff)
  then have c2: "2 * (of_int \<lceil>A\<rceil> :: real) + 2 \<le> of_int k" by simp
  have "A + 1 \<le> of_int k / 2" using c1 c2 by linarith
  then have a: "A < to_float (of_int k)" using to_float_half[OF ok1] by linarith
  have "A * cw < to_float (of_int k) * cw" using a pos by (rule mult_strict_right_mono)
  moreover have "A * cw = B" unfolding A_def using pos by simp
  ultimately have p: "B < to_float (of_int k) * cw" by simp
  then have "1 \<le> to_float (of_int k) * cw" using B1(1) by linarith
  from to_float_half[OF this] have "B / 2 < to_float (to_float (of_int k) * cw)" using p by linarith
  moreover have "LinkCellIterator.m_r_max it + 1 \<le> B / 2" using B1(2) by simp
  ultimately have "LinkCellIterator.m_r_max it < to_float (to_float (of_int k) * cw)" by linarith
  then have "beyond it r" unfolding beyond_def rk float_mul_def cw_def .
  then show ?thesis using r0 by blast
qed

lemma stop_index:
  assumes ok: "shells_ok h b" and cw: "0 < getCellWidth (m_linkcell it)"
  shows "\<exists>N > 0. beyond it (m_range (shell_pos h b N))
     \<and> (\<forall>m. 0 < m \<and> m < N \<longrightarrow> \<not> beyond it (m_range (shell_pos h b m)))"
proof -
  define P where "P n \<longleftrightarrow> 0 < n \<and> beyond it (m_range (shell_pos h b n))" for n
  from beyond_ex[OF cw] obtain r where r: "0 < r" "beyond it r" by blast
  have "P (shell_start h b r)"
    unfolding P_def using shell_start_pos[OF ok r(1)] shell_reaches_range[OF ok, of r] r(2) by simp
  then have L: "P (LEAST n. P n)" by (rule LeastI)
  have "\<forall>m. 0 < m \<and> m < (LEAST n. P n) \<longrightarrow> \<not> beyond it (m_range (shell_pos h b m))"
  proof (intro allI impI)
    fix m assume m: "0 < m \<and> m < (LEAST n. P n)"
    then have "\<not> P m" using not_less_Least by blast
    then show "\<not> beyond it (m_range (shell_pos h b m))" using m unfolding P_def by simp
  qed
  then show ?thesis using L unfolding P_def by blast
qed



lemma ball_query_visits:
  assumes ctor: "LinkCell_ctor (getCell_of h) box cw ps n = Inr lc"
    and size: "unat n < 2 ^ 31" "unat n + unat (m_size lc) < 2 ^ 32" "unat n \<le> length ps"
    and cells: "\<forall>c. unat (getCellIndex h (m_celldim lc) c) < unat (m_size lc)"
    and shells: "shells_ok h (is2D box)"
    and cw: "0 < cw"
    and it0: "it0 = LinkCellQueryBallIterator_ctor h lc q qi r_max r_min excl"
  shows "\<exists>N > 0. beyond it0 (m_range (shell_pos h (is2D box) N))
     \<and> (\<forall>m. 0 < m \<and> m < N \<longrightarrow> \<not> beyond it0 (m_range (shell_pos h (is2D box) m)))
     \<and> ball_query h it0 = Some (Inr (all_out h
          (bucket_from (getCell_of h box (m_celldim lc)) ps (unat n) 0) it0 N))"
proof -
  let ?g = "getCell_of h box (m_celldim lc)"
  let ?bk = "bucket_from ?g ps (unat n) 0"
  have valid: "\<forall>j < unat n. unat (?g (ps ! j)) < unat (m_size lc)"
    using cells by (simp add: getCell_of_def)
  from LinkCell_ctor_linked[OF ctor size valid] have
    f: "LinkCell.m_box lc = box" "m_points lc = ps" "m_n_points lc = n" "m_cell_width lc = cw"
    and linked: "cells_linked ?g ps n (unat (m_size lc)) 0 (m_cell_list lc)" by simp_all
  have b: "m_is2D (m_neigh_cell_iter it0) = is2D box"
    unfolding it0 by (simp add: f IteratorCellShell_ctor_def)
  have lc0: "m_linkcell it0 = lc" unfolding it0 by simp
  have cw0: "0 < getCellWidth (m_linkcell it0)" unfolding lc0 getCellWidth_def f using cw .
  from stop_index[OF shells cw0] obtain N where N: "0 < N"
    "beyond it0 (m_range (shell_pos h (is2D box) N))"
    "\<forall>m. 0 < m \<and> m < N \<longrightarrow> \<not> beyond it0 (m_range (shell_pos h (is2D box) m))" by blast
  have n32: "unat n < 2 ^ 32" using size(2) by simp
  have bks: "chain (m_cell_list lc) (itercell lc c) (?bk c)
         \<and> (\<forall>j \<in> set (?bk c). unat j < length (m_points lc))"
    if c: "unat c < unat (m_size lc)" for c
  proof
    show "chain (m_cell_list lc) (itercell lc c) (?bk c)"
      using linked c unfolding cells_linked_def itercell_def f by simp
    show "\<forall>j \<in> set (?bk c). unat j < length (m_points lc)"
    proof
      fix j assume "j \<in> set (?bk c)"
      from bucket_from_elem[OF this n32] have "unat j < unat n" by simp
      then show "unat j < length (m_points lc)" unfolding f using size(3) by simp
    qed
  qed
  have ca: "unat (cell_at h it0 m) < unat (m_size lc)" for m
    using cells unfolding cell_at_def Let_def lc0 by simp
  have su: "ball_setup h ?bk it0 N"
    unfolding ball_setup_def b lc0
  proof (intro conjI allI impI)
    show "shells_ok h (is2D box)" by (rule shells)
    show "0 < N" by (rule N(1))
    show "beyond it0 (m_range (shell_pos h (is2D box) N))" by (rule N(2))
    show "\<not> beyond it0 (m_range (shell_pos h (is2D box) m))" if "0 < m \<and> m < N" for m
      using N(3) that by blast
    show "chain (m_cell_list lc) (itercell lc (cell_at h it0 m)) (?bk (cell_at h it0 m))" for m
      using bks[OF ca] by simp
    show "\<forall>j \<in> set (?bk (cell_at h it0 m)). unat j < length (m_points lc)" for m
      using bks[OF ca] by simp
    show "\<not> m_finished it0" unfolding it0 by simp
  qed
  have i1: "m_neigh_cell_iter it0 = IteratorCellShell_ctor 0 (is2D box)" unfolding it0 by (simp add: f)
  have i2: "m_searched_cells it0 = {}" unfolding it0 by simp
  have i3: "m_cell_iter it0 = itercell (m_linkcell it0)
         (getCell_of h (LinkCell.m_box (m_linkcell it0)) (m_celldim (m_linkcell it0)) (m_query_point it0))"
    unfolding it0 by simp
  have "ball_query h it0 = Some (Inr (all_out h ?bk it0 N))"
    by (rule ball_query_initial[OF su i1 i2 i3])
  then show ?thesis using N by blast
qed



lemma ball_query_single:
  assumes ctor: "LinkCell_ctor (getCell_of h) box cw [p] 1 = Inr lc"
    and size: "1 + unat (m_size lc) < 2 ^ 32"
    and cells: "\<forall>c. unat (getCellIndex h (m_celldim lc) c) < unat (m_size lc)"
    and shells: "shells_ok h (is2D box)"
    and cw: "0 < cw"
  shows "ball_query h (LinkCellQueryBallIterator_ctor h lc q 0 r_max r_min True) = Some (Inr [])"
proof -
  define it0 where "it0 = LinkCellQueryBallIterator_ctor h lc q 0 r_max r_min True"
  let ?g = "getCell_of h box (m_celldim lc)"
  let ?bk = "bucket_from ?g [p] (unat (1 :: 32 word)) 0"
  have s1: "unat (1 :: 32 word) < 2 ^ 31" by simp
  have s2: "unat (1 :: 32 word) + unat (m_size lc) < 2 ^ 32" using size by simp
  have s3: "unat (1 :: 32 word) \<le> length [p]" by simp
  from ball_query_visits[OF ctor s1 s2 s3 cells shells cw it0_def] obtain N where
    N: "ball_query h it0 = Some (Inr (all_out h ?bk it0 N))" by blast
  have "set (all_out h ?bk it0 N) = {}"
  proof -
    have "\<not> passes it0 j" if "j \<in> set (?bk c)" for j c
    proof -
      from bucket_from_elem[OF that] have "unat j < 1" by simp
      then have "j = 0" by (simp add: unat_eq_0)
      then show ?thesis unfolding passes_def it0_def by simp
    qed
    then show ?thesis unfolding set_all_out by blast
  qed
  then show ?thesis using N unfolding it0_def by simp
qed

lemma collect_cell_chain:
  assumes "chain (m_cell_list (m_linkcell it)) cur js"
    and "\<forall>j \<in> set js. unat j < length (m_points (m_linkcell it))"
  shows "collect_cell it cur acc =
     Some (Inr (acc @ map (bond_of it) (filter (passes it) js), LINK_CELL_TERMINATOR))"
  using assms
proof (induction arbitrary: acc rule: chain.induct)
  case (chain_end cur)
  then show ?case by (subst collect_cell.simps) (simp add: array_get_def)
next
  case (chain_step cur j js)
  have j: "unat j < length (m_points (m_linkcell it))" using chain_step.prems by simp
  have ih: "collect_cell it j acc' =
     Some (Inr (acc' @ map (bond_of it) (filter (passes it) js), LINK_CELL_TERMINATOR))" for acc'
    using chain_step.IH chain_step.prems by simp
  show ?case
  proof (cases "passes it j")
    case True
    then have "collect_cell it cur acc = collect_cell it j (acc @ [bond_of it j])"
      using chain_step.hyps j
      by (subst collect_cell.simps) (auto simp: array_get_def passes_def bond_of_def Let_def)
    then show ?thesis using True ih by simp
  next
    case False
    then have "collect_cell it cur acc = collect_cell it j acc" using chain_step.hyps j
      by (subst collect_cell.simps) (auto simp: array_get_def passes_def Let_def)
    then show ?thesis using False ih by simp
  qed
qed

lemma knn_at_fields [simp]:
  "m_linkcell (knn_at h it0 n cur S buf) = m_linkcell it0"
  "m_query_point (knn_at h it0 n cur S buf) = m_query_point it0"
  "m_query_point_idx (knn_at h it0 n cur S buf) = m_query_point_idx it0"
  "LinkCellIterator.m_r_max (knn_at h it0 n cur S buf) = LinkCellIterator.m_r_max it0"
  "m_r_min (knn_at h it0 n cur S buf) = m_r_min it0"
  "m_exclude_ii (knn_at h it0 n cur S buf) = m_exclude_ii it0"
  "m_count (knn_at h it0 n cur S buf) = m_count it0"
  "m_num_neighbors (knn_at h it0 n cur S buf) = m_num_neighbors it0"
  "m_current_neighbors (knn_at h it0 n cur S buf) = buf"
  "m_cell_iter (knn_at h it0 n cur S buf) = cur"
  "m_searched_cells (knn_at h it0 n cur S buf) = S"
  "m_finished (knn_at h it0 n cur S buf) = m_finished it0"
  "m_neigh_cell_iter (knn_at h it0 n cur S buf) = shell_pos h (m_is2D (m_neigh_cell_iter it0)) n"
  by (simp_all add: knn_at_def)

lemma knn_at_updates:
  "(knn_at h it0 n cur S buf)\<lparr> m_neigh_cell_iter := shell_incr h (shell_pos h (m_is2D (m_neigh_cell_iter it0)) n) \<rparr>
     = knn_at h it0 (Suc n) cur S buf"
  "(knn_at h it0 n cur S buf)\<lparr> m_searched_cells := S' \<rparr> = knn_at h it0 n cur S' buf"
  "(knn_at h it0 n cur S buf)\<lparr> m_cell_iter := cur' \<rparr> = knn_at h it0 n cur' S buf"
  "(knn_at h it0 n cur S buf)\<lparr> m_current_neighbors := buf' \<rparr> = knn_at h it0 n cur S buf'"
  "(knn_at h it0 n cur S buf)\<lparr> m_cell_iter := cur', m_current_neighbors := buf' \<rparr>
     = knn_at h it0 n cur' S buf'"
  by (simp_all add: knn_at_def shell_pos_Suc)

lemma passes_knn_at [simp]: "passes (knn_at h it0 n cur S buf) = passes it0"
  by (rule ext) (simp add: passes_def r_sq_of_def)

lemma bond_of_knn_at [simp]: "bond_of (knn_at h it0 n cur S buf) = bond_of it0"
  by (rule ext) (simp add: bond_of_def r_sq_of_def)

lemma knn_advance_step:
  assumes ok: "shells_ok h (m_is2D (m_neigh_cell_iter it0))"
  shows "knn_advance h (query_cell h it0) stop (knn_at h it0 n cur (cell_at h it0 ` {..n}) buf) =
     (if shell_pos h (m_is2D (m_neigh_cell_iter it0)) (Suc n) = stop
      then Some (Inr (knn_at h it0 (Suc n) cur (cell_at h it0 ` {..n}) buf))
      else if is_new h it0 (Suc n)
      then Some (Inr (knn_at h it0 (Suc n)
                   (itercell (m_linkcell it0) (cell_at h it0 (Suc n))) (cell_at h it0 ` {..Suc n}) buf))
      else knn_advance h (query_cell h it0) stop
             (knn_at h it0 (Suc n) cur (cell_at h it0 ` {..Suc n}) buf))"
proof -
  let ?b = "m_is2D (m_neigh_cell_iter it0)"
  have d: "shell_deref h (shell_pos h ?b (Suc n))
     = Inr (cell_shell h ?b (m_range (shell_pos h ?b (Suc n))) ! m_offset (shell_pos h ?b (Suc n)))"
    by (rule shell_deref_pos[OF ok])
  have b: "m_is2D (shell_pos h ?b (Suc n)) = ?b" using shell_pos_inv[OF ok] by simp
  have c: "getCellIndex h (m_celldim (m_linkcell it0))
             (vec_plus (query_cell h it0)
                (cell_shell h ?b (m_range (shell_pos h ?b (Suc n))) ! m_offset (shell_pos h ?b (Suc n))))
           = cell_at h it0 (Suc n)"
    by (simp add: cell_at_def Let_def b)
  have new: "cell_at h it0 (Suc n) \<notin> cell_at h it0 ` {..n} \<longleftrightarrow> is_new h it0 (Suc n)"
    by (simp add: is_new_def lessThan_Suc_atMost)
  show ?thesis
    by (subst knn_advance.simps)
       (simp add: Let_def knn_at_updates d c new cell_at_image_Suc
          del: shell_pos_Suc)
qed

lemma knn_advance_run:
  assumes ok: "shells_ok h (m_is2D (m_neigh_cell_iter it0))"
    and nN: "n < N"
    and stop: "shell_pos h (m_is2D (m_neigh_cell_iter it0)) N = stop"
    and before: "\<forall>m. n < m \<and> m < N \<longrightarrow> shell_pos h (m_is2D (m_neigh_cell_iter it0)) m \<noteq> stop"
  shows "(\<exists>m. n < m \<and> m < N \<and> is_new h it0 m \<and> (\<forall>k. n < k \<and> k < m \<longrightarrow> \<not> is_new h it0 k)
            \<and> knn_advance h (query_cell h it0) stop (knn_at h it0 n cur (cell_at h it0 ` {..n}) buf)
                = Some (Inr (knn_at h it0 m (itercell (m_linkcell it0) (cell_at h it0 m))
                                     (cell_at h it0 ` {..m}) buf)))
       \<or> ((\<forall>k. n < k \<and> k < N \<longrightarrow> \<not> is_new h it0 k)
            \<and> knn_advance h (query_cell h it0) stop (knn_at h it0 n cur (cell_at h it0 ` {..n}) buf)
                = Some (Inr (knn_at h it0 N cur (cell_at h it0 ` {..<N}) buf)))"
  using nN before
proof (induction "N - n" arbitrary: n)
  case 0
  then show ?case by simp
next
  case (Suc d)
  note step = knn_advance_step[OF ok, of stop n cur buf]
  show ?case
  proof (cases "Suc n = N")
    case True
    then have e: "{..n} = {..<N}" by auto
    have "knn_advance h (query_cell h it0) stop (knn_at h it0 n cur (cell_at h it0 ` {..n}) buf)
        = Some (Inr (knn_at h it0 N cur (cell_at h it0 ` {..<N}) buf))"
      unfolding step using stop True e by simp
    moreover have "\<forall>k. n < k \<and> k < N \<longrightarrow> \<not> is_new h it0 k" using True by auto
    ultimately show ?thesis by blast
  next
    case False
    then have lt: "Suc n < N" using Suc.prems by simp
    then have nb: "shell_pos h (m_is2D (m_neigh_cell_iter it0)) (Suc n) \<noteq> stop"
      using Suc.prems by simp
    show ?thesis
    proof (cases "is_new h it0 (Suc n)")
      case True
      have "\<forall>k. n < k \<and> k < Suc n \<longrightarrow> \<not> is_new h it0 k" by auto
      moreover have "knn_advance h (query_cell h it0) stop (knn_at h it0 n cur (cell_at h it0 ` {..n}) buf)
          = Some (Inr (knn_at h it0 (Suc n) (itercell (m_linkcell it0) (cell_at h it0 (Suc n)))
                                     (cell_at h it0 ` {..Suc n}) buf))"
        unfolding step using nb True by simp
      ultimately show ?thesis using True lt by (intro disjI1 exI[of _ "Suc n"]) blast
    next
      case old: False
      have eq: "knn_advance h (query_cell h it0) stop (knn_at h it0 n cur (cell_at h it0 ` {..n}) buf)
        = knn_advance h (query_cell h it0) stop (knn_at h it0 (Suc n) cur (cell_at h it0 ` {..Suc n}) buf)"
        unfolding step using nb old by simp
      have d: "d = N - Suc n" using Suc.hyps(2) by simp
      have bf: "\<forall>m. Suc n < m \<and> m < N \<longrightarrow> shell_pos h (m_is2D (m_neigh_cell_iter it0)) m \<noteq> stop"
        using Suc.prems by simp
      from Suc.hyps(1)[OF d lt bf] show ?thesis
      proof
        assume "\<exists>m>Suc n. m < N \<and> is_new h it0 m \<and> (\<forall>k. Suc n < k \<and> k < m \<longrightarrow> \<not> is_new h it0 k)
            \<and> knn_advance h (query_cell h it0) stop (knn_at h it0 (Suc n) cur (cell_at h it0 ` {..Suc n}) buf)
                = Some (Inr (knn_at h it0 m (itercell (m_linkcell it0) (cell_at h it0 m))
                                     (cell_at h it0 ` {..m}) buf))"
        then obtain m where m: "Suc n < m" "m < N" "is_new h it0 m"
          "\<forall>k. Suc n < k \<and> k < m \<longrightarrow> \<not> is_new h it0 k"
          "knn_advance h (query_cell h it0) stop (knn_at h it0 (Suc n) cur (cell_at h it0 ` {..Suc n}) buf)
                = Some (Inr (knn_at h it0 m (itercell (m_linkcell it0) (cell_at h it0 m))
                                     (cell_at h it0 ` {..m}) buf))" by blast
        have "\<forall>k. n < k \<and> k < m \<longrightarrow> \<not> is_new h it0 k"
        proof (intro allI impI)
          fix k assume "n < k \<and> k < m"
          then have "k = Suc n \<or> (Suc n < k \<and> k < m)" by auto
          then show "\<not> is_new h it0 k" using old m(4) by auto
        qed
        moreover have "n < m" using m(1) by simp
        moreover have "knn_advance h (query_cell h it0) stop (knn_at h it0 n cur (cell_at h it0 ` {..n}) buf)
                = Some (Inr (knn_at h it0 m (itercell (m_linkcell it0) (cell_at h it0 m))
                                     (cell_at h it0 ` {..m}) buf))" using eq m(5) by (rule trans)
        ultimately show ?thesis using m(2,3) by (intro disjI1 exI[of _ m]) blast
      next
        assume a: "(\<forall>k. Suc n < k \<and> k < N \<longrightarrow> \<not> is_new h it0 k)
            \<and> knn_advance h (query_cell h it0) stop (knn_at h it0 (Suc n) cur (cell_at h it0 ` {..Suc n}) buf)
                = Some (Inr (knn_at h it0 N cur (cell_at h it0 ` {..<N}) buf))"
        have "\<forall>k. n < k \<and> k < N \<longrightarrow> \<not> is_new h it0 k"
        proof (intro allI impI)
          fix k assume "n < k \<and> k < N"
          then have "k = Suc n \<or> (Suc n < k \<and> k < N)" by auto
          then show "\<not> is_new h it0 k" using old a by auto
        qed
        moreover have "knn_advance h (query_cell h it0) stop (knn_at h it0 n cur (cell_at h it0 ` {..n}) buf)
                = Some (Inr (knn_at h it0 N cur (cell_at h it0 ` {..<N}) buf))"
          using eq a by (simp only:)
        ultimately show ?thesis by (intro disjI2) blast
      qed
    qed
  qed
qed

lemma news_first:
  assumes "n < m" "m < N" "is_new h it m" "\<forall>k. n < k \<and> k < m \<longrightarrow> \<not> is_new h it k"
  shows "filter (is_new h it) [Suc n ..< N] = m # filter (is_new h it) [Suc m ..< N]"
proof -
  have "[Suc n ..< N] = [Suc n ..< m] @ [m ..< N]"
    using upt_add_eq_append[of "Suc n" m "N - m"] assms(1,2) by simp
  moreover have "[m ..< N] = m # [Suc m ..< N]"
    using assms(2) by (simp add: upt_conv_Cons)
  ultimately have "[Suc n ..< N] = [Suc n ..< m] @ m # [Suc m ..< N]" by simp
  moreover have "filter (is_new h it) [Suc n ..< m] = []"
    using assms(4) by (auto simp: filter_empty_conv)
  ultimately show ?thesis using assms(3) by simp
qed

lemma news_none:
  assumes "\<forall>k. n < k \<and> k < N \<longrightarrow> \<not> is_new h it k"
  shows "filter (is_new h it) [Suc n ..< N] = []"
  using assms by (auto simp: filter_empty_conv)

lemma enough_at:
  assumes "m_num_neighbors it0 \<noteq> 0"
  shows "enough_neighbors (knn_at h it0 m cur S buf)
     = Inr (unat (m_num_neighbors it0) \<le> length buf
            \<and> distance (buf ! (unat (m_num_neighbors it0) - 1))
                < knn_bound it0 (m_range (shell_pos h (m_is2D (m_neigh_cell_iter it0)) m)))"
proof -
  have u: "unat (m_num_neighbors it0 - 1) = unat (m_num_neighbors it0) - 1"
    using assms by (rule unat_minus_one)
  have p: "0 < unat (m_num_neighbors it0)" using assms by (simp add: unat_gt_0)
  show ?thesis
  proof (cases "unat (m_num_neighbors it0) \<le> length buf")
    case True
    then have "unat (m_num_neighbors it0) - 1 < length buf" using p by simp
    then show ?thesis using True
      by (simp add: enough_neighbors_def u array_get_def knn_bound_def getRange_def)
  next
    case False
    then show ?thesis by (simp add: enough_neighbors_def)
  qed
qed

lemma knn_search_stop:
  assumes "shell_pos h (m_is2D (m_neigh_cell_iter it0)) N = stop"
  shows "knn_search h pc stop (knn_at h it0 N cur S buf) = Some (Inr (knn_at h it0 N cur S buf))"
  by (subst knn_search.simps) (simp add: assms)

lemma knn_search_run:
  assumes su: "knn_setup h bk it0 N stop"
    and n: "n < N"
  shows "\<exists>m' cur' S'. m' \<le> N
     \<and> knn_search h (query_cell h it0) stop
         (knn_at h it0 n (itercell (m_linkcell it0) (cell_at h it0 n)) (cell_at h it0 ` {..n}) buf)
       = Some (Inr (knn_at h it0 m' cur' S'
           (knn_scan (\<lambda>m. cell_out bk it0 (cell_at h it0 m))
              (\<lambda>m. knn_bound it0 (m_range (shell_pos h (m_is2D (m_neigh_cell_iter it0)) m)))
              (unat (m_num_neighbors it0)) buf n (filter (is_new h it0) [Suc n ..< N]))))"
  using n
proof (induction "N - n" arbitrary: n buf rule: less_induct)
  case less
  let ?b = "m_is2D (m_neigh_cell_iter it0)"
  let ?lc = "m_linkcell it0"
  let ?outf = "\<lambda>m. cell_out bk it0 (cell_at h it0 m)"
  let ?bound = "\<lambda>m. knn_bound it0 (m_range (shell_pos h ?b m))"
  let ?k = "unat (m_num_neighbors it0)"
  let ?it = "knn_at h it0 n (itercell ?lc (cell_at h it0 n)) (cell_at h it0 ` {..n}) buf"
  let ?buf1 = "buf @ ?outf n"
  let ?buf2 = "sort_key distance ?buf1"
  have ok: "shells_ok h ?b" and stop: "shell_pos h ?b N = stop"
    and before: "\<forall>m. n < m \<and> m < N \<longrightarrow> shell_pos h ?b m \<noteq> stop"
    and k0: "m_num_neighbors it0 \<noteq> 0"
    using su by (simp_all add: knn_setup_def)
  have here: "shell_pos h ?b n \<noteq> stop" using su less.prems by (simp add: knn_setup_def)
  have bn: "chain (m_cell_list ?lc) (itercell ?lc (cell_at h it0 n)) (bk (cell_at h it0 n))"
    "\<forall>j \<in> set (bk (cell_at h it0 n)). unat j < length (m_points ?lc)"
    "itercell ?lc (cell_at h it0 n) \<noteq> LINK_CELL_TERMINATOR"
    using su less.prems by (simp_all add: knn_setup_def)
  have col: "collect_cell ?it (itercell ?lc (cell_at h it0 n)) buf
      = Some (Inr (?buf1, LINK_CELL_TERMINATOR))"
    using collect_cell_chain[of ?it "itercell ?lc (cell_at h it0 n)" "bk (cell_at h it0 n)" buf] bn
    by (simp add: cell_out_def)
  have run0: "knn_search h (query_cell h it0) stop ?it =
      Option.bind
        (knn_advance h (query_cell h it0) stop
           (knn_at h it0 n LINK_CELL_TERMINATOR (cell_at h it0 ` {..n}) ?buf1))
        (\<lambda>a. case a of
           Inl e \<Rightarrow> Some (Inl e)
         | Inr it1 \<Rightarrow>
             let it2 = it1\<lparr> m_current_neighbors :=
                               sort_key distance (m_current_neighbors it1) \<rparr> in
             (case enough_neighbors it2 of
                Inl e \<Rightarrow> Some (Inl e)
              | Inr enough \<Rightarrow>
                  if enough then Some (Inr it2)
                  else knn_search h (query_cell h it0) stop it2))"
    by (subst knn_search.simps) (simp add: here bn(3) col knn_at_updates)
  from knn_advance_run[OF ok less.prems stop before, of LINK_CELL_TERMINATOR ?buf1]
  show ?case
  proof
    assume "\<exists>m>n. m < N \<and> is_new h it0 m \<and> (\<forall>k. n < k \<and> k < m \<longrightarrow> \<not> is_new h it0 k)
        \<and> knn_advance h (query_cell h it0) stop
            (knn_at h it0 n LINK_CELL_TERMINATOR (cell_at h it0 ` {..n}) ?buf1)
          = Some (Inr (knn_at h it0 m (itercell ?lc (cell_at h it0 m)) (cell_at h it0 ` {..m}) ?buf1))"
    then obtain m where m: "n < m" "m < N" "is_new h it0 m"
      "\<forall>k. n < k \<and> k < m \<longrightarrow> \<not> is_new h it0 k"
      "knn_advance h (query_cell h it0) stop
            (knn_at h it0 n LINK_CELL_TERMINATOR (cell_at h it0 ` {..n}) ?buf1)
          = Some (Inr (knn_at h it0 m (itercell ?lc (cell_at h it0 m)) (cell_at h it0 ` {..m}) ?buf1))"
      by blast
    let ?it2 = "knn_at h it0 m (itercell ?lc (cell_at h it0 m)) (cell_at h it0 ` {..m}) ?buf2"
    have news: "filter (is_new h it0) [Suc n ..< N] = m # filter (is_new h it0) [Suc m ..< N]"
      by (rule news_first[OF m(1,2,3,4)])
    have run1: "knn_search h (query_cell h it0) stop ?it =
        (if ?k \<le> length ?buf2 \<and> distance (?buf2 ! (?k - 1)) < ?bound m
         then Some (Inr ?it2)
         else knn_search h (query_cell h it0) stop ?it2)"
      unfolding run0 m(5) by (simp add: knn_at_updates enough_at[OF k0] Let_def)
    show ?thesis
    proof (cases "?k \<le> length ?buf2 \<and> distance (?buf2 ! (?k - 1)) < ?bound m")
      case True
      have "knn_scan ?outf ?bound ?k buf n (filter (is_new h it0) [Suc n ..< N]) = ?buf2"
        unfolding news by (simp only: knn_scan.simps Let_def if_P[OF True])
      moreover have "knn_search h (query_cell h it0) stop ?it = Some (Inr ?it2)"
        unfolding run1 by (simp only: if_P[OF True])
      moreover have "m \<le> N" using m(2) by simp
      ultimately show ?thesis by metis
    next
      case False
      have sc: "knn_scan ?outf ?bound ?k buf n (filter (is_new h it0) [Suc n ..< N])
          = knn_scan ?outf ?bound ?k ?buf2 m (filter (is_new h it0) [Suc m ..< N])"
        unfolding news by (simp only: knn_scan.simps Let_def if_not_P[OF False])
      have r: "knn_search h (query_cell h it0) stop ?it
          = knn_search h (query_cell h it0) stop ?it2"
        unfolding run1 by (simp only: if_not_P[OF False])
      have d: "N - m < N - n" using m(1,2) by simp
      show ?thesis unfolding r sc by (rule less.hyps[OF d m(2)])
    qed
  next
    assume a: "(\<forall>k. n < k \<and> k < N \<longrightarrow> \<not> is_new h it0 k)
        \<and> knn_advance h (query_cell h it0) stop
            (knn_at h it0 n LINK_CELL_TERMINATOR (cell_at h it0 ` {..n}) ?buf1)
          = Some (Inr (knn_at h it0 N LINK_CELL_TERMINATOR (cell_at h it0 ` {..<N}) ?buf1))"
    let ?it2 = "knn_at h it0 N LINK_CELL_TERMINATOR (cell_at h it0 ` {..<N}) ?buf2"
    have news: "filter (is_new h it0) [Suc n ..< N] = []" using a by (intro news_none) simp
    have "knn_search h (query_cell h it0) stop ?it = Some (Inr ?it2)"
      unfolding run0 using a
      by (simp add: knn_at_updates enough_at[OF k0] Let_def knn_search_stop[OF stop])
    moreover have "knn_scan ?outf ?bound ?k buf n (filter (is_new h it0) [Suc n ..< N]) = ?buf2"
      unfolding news by simp
    ultimately show ?thesis by (metis order_refl)
  qed
qed

lemma yield_step:
  fixes it :: LinkCellQueryIterator
  shows "yield_neighbor it =
     (case drop (unat (m_count it)) (take (unat (m_num_neighbors it)) (m_current_neighbors it)) of
        [] \<Rightarrow> Inr (ITERATOR_TERMINATOR, it\<lparr> m_finished := True \<rparr>)
      | b # rest \<Rightarrow>
          if within_r_max it b then Inr (b, it\<lparr> m_count := m_count it + 1 \<rparr>)
          else Inr (ITERATOR_TERMINATOR, it\<lparr> m_count := m_count it + 1, m_finished := True \<rparr>))"
proof (cases "m_count it < m_num_neighbors it \<and> unat (m_count it) < length (m_current_neighbors it)")
  case True
  then have c: "unat (m_count it) < unat (m_num_neighbors it)"
    "unat (m_count it) < length (m_current_neighbors it)"
    by (simp_all add: word_less_nat_alt)
  have lt: "unat (m_count it) < length (take (unat (m_num_neighbors it)) (m_current_neighbors it))"
    using c by simp
  have d: "drop (unat (m_count it)) (take (unat (m_num_neighbors it)) (m_current_neighbors it))
     = m_current_neighbors it ! unat (m_count it)
       # drop (Suc (unat (m_count it))) (take (unat (m_num_neighbors it)) (m_current_neighbors it))"
    using Cons_nth_drop_Suc[OF lt] c(1) by simp
  have "yield_neighbor it =
      (if LinkCellIterator.m_r_max it < distance (m_current_neighbors it ! unat (m_count it))
       then Inr (ITERATOR_TERMINATOR, it\<lparr> m_count := m_count it + 1, m_finished := True \<rparr>)
       else Inr (m_current_neighbors it ! unat (m_count it), it\<lparr> m_count := m_count it + 1 \<rparr>))"
    unfolding yield_neighbor_def using True c(2) by (simp add: Let_def array_get_def)
  then show ?thesis unfolding d by (simp add: within_r_max_def)
next
  case False
  then have "\<not> (unat (m_count it) < unat (m_num_neighbors it)
     \<and> unat (m_count it) < length (m_current_neighbors it))"
    by (simp add: word_less_nat_alt)
  then have "drop (unat (m_count it)) (take (unat (m_num_neighbors it)) (m_current_neighbors it)) = []"
    by auto
  moreover have "yield_neighbor it = Inr (ITERATOR_TERMINATOR, it\<lparr> m_finished := True \<rparr>)"
    unfolding yield_neighbor_def by (simp only: if_not_P[OF False])
  ultimately show ?thesis by simp
qed

lemma knn_next_rest:
  assumes ok: "shells_ok h (m_is2D (m_neigh_cell_iter it0))"
    and mr: "max_range_of (m_linkcell it0) = Inr R"
    and buf: "buf \<noteq> []"
  shows "\<exists>S''. LinkCellQueryIterator_next h ((knn_at h it0 m' cur' S' buf)\<lparr> m_count := c \<rparr>)
     = Some (yield_neighbor ((knn_at h it0 m' cur' S'' buf)\<lparr> m_count := c \<rparr>))"
proof -
  let ?b = "m_is2D (m_neigh_cell_iter it0)"
  have d: "shell_deref h (shell_pos h ?b m')
     = Inr (cell_shell h ?b (m_range (shell_pos h ?b m')) ! m_offset (shell_pos h ?b m'))"
    by (rule shell_deref_pos[OF ok])
  have e: "(knn_at h it0 m' cur' S' buf)\<lparr> m_count := c, m_searched_cells := X \<rparr>
      = (knn_at h it0 m' cur' X buf)\<lparr> m_count := c \<rparr>" for X
    by (simp add: knn_at_def)
  have "LinkCellQueryIterator_next h ((knn_at h it0 m' cur' S' buf)\<lparr> m_count := c \<rparr>)
     = Some (yield_neighbor ((knn_at h it0 m' cur'
         (insert (getCellIndex h (m_celldim (m_linkcell it0))
                  (vec_plus (point_cell_of h (m_linkcell it0) (m_query_point it0))
                     (cell_shell h ?b (m_range (shell_pos h ?b m')) ! m_offset (shell_pos h ?b m'))))
            S') buf)\<lparr> m_count := c \<rparr>))"
    unfolding LinkCellQueryIterator_next_def
    by (simp add: mr d Let_def buf e)
  then show ?thesis by blast
qed

lemma knn_query_rest:
  assumes ok: "shells_ok h (m_is2D (m_neigh_cell_iter it0))"
    and mr: "max_range_of (m_linkcell it0) = Inr R"
    and buf: "buf \<noteq> []"
    and nf: "\<not> m_finished it0"
  shows "knn_query h ((knn_at h it0 m' cur' S' buf)\<lparr> m_count := c \<rparr>)
     = Some (Inr (takeWhile (within_r_max it0)
          (drop (unat c) (take (unat (m_num_neighbors it0)) buf))))"
proof (induction "length buf - unat c" arbitrary: c S' rule: less_induct)
  case less
  let ?k = "unat (m_num_neighbors it0)"
  from knn_next_rest[OF ok mr buf] obtain S'' where
    nx: "LinkCellQueryIterator_next h ((knn_at h it0 m' cur' S' buf)\<lparr> m_count := c \<rparr>)
     = Some (yield_neighbor ((knn_at h it0 m' cur' S'' buf)\<lparr> m_count := c \<rparr>))" by blast
  let ?it = "(knn_at h it0 m' cur' S'' buf)\<lparr> m_count := c \<rparr>"
  have w: "within_r_max ?it = within_r_max it0" by (rule ext) (simp add: within_r_max_def)
  note ys = yield_step[of ?it, unfolded w]
  show ?case
  proof (cases "drop (unat c) (take ?k buf)")
    case Nil
    then have "yield_neighbor ?it = Inr (ITERATOR_TERMINATOR, ?it\<lparr> m_finished := True \<rparr>)"
      unfolding ys by simp
    then show ?thesis using Nil by (subst knn_query.simps) (simp add: nx)
  next
    case (Cons b rest)
    have lt: "unat c < ?k" "unat c < length buf"
      using Cons by (auto simp: drop_eq_Nil not_le[symmetric] simp del: not_le)
    have rest: "rest = drop (Suc (unat c)) (take ?k buf)"
      using Cons by (metis drop_Suc list.sel(3) tl_drop)
    have "unat c + 1 < 2 ^ 32" using lt(1) unsigned_less[of "m_num_neighbors it0", where 'a = nat]
      by simp
    then have c1: "unat (c + 1) = Suc (unat c)" by (simp add: unat_word_ariths)
    show ?thesis
    proof (cases "within_r_max it0 b")
      case True
      then have y: "yield_neighbor ?it = Inr (b, ?it\<lparr> m_count := c + 1 \<rparr>)"
        unfolding ys using Cons by simp
      have e: "?it\<lparr> m_count := c + 1 \<rparr> = (knn_at h it0 m' cur' S'' buf)\<lparr> m_count := c + 1 \<rparr>"
        by simp
      have d: "length buf - unat (c + 1) < length buf - unat c" using lt(2) c1 by simp
      have ih: "knn_query h ((knn_at h it0 m' cur' S'' buf)\<lparr> m_count := c + 1 \<rparr>)
         = Some (Inr (takeWhile (within_r_max it0) rest))"
        unfolding rest c1[symmetric] by (rule less.hyps[OF d])
      show ?thesis using Cons True
        by (subst knn_query.simps) (simp add: nx y e ih nf)
    next
      case False
      then have y: "yield_neighbor ?it
          = Inr (ITERATOR_TERMINATOR, ?it\<lparr> m_count := c + 1, m_finished := True \<rparr>)"
        unfolding ys using Cons by simp
      show ?thesis using Cons False
        by (subst knn_query.simps) (simp add: nx y)
    qed
  qed
qed

lemma knn_query_initial:
  assumes su: "knn_setup h bk it0 N stop"
    and mr: "max_range_of (m_linkcell it0) = Inr R"
    and stop: "stop = IteratorCellShell_ctor (unat R) (is2D (LinkCell.m_box (m_linkcell it0)))"
    and init: "m_neigh_cell_iter it0 = IteratorCellShell_ctor 0 b"
      "m_searched_cells it0 = {}"
      "m_cell_iter it0 = itercell (m_linkcell it0)
         (getCell_of h (LinkCell.m_box (m_linkcell it0)) (m_celldim (m_linkcell it0)) (m_query_point it0))"
      "m_current_neighbors it0 = []" "m_count it0 = 0" "\<not> m_finished it0"
  shows "knn_query h it0
     = Some (Inr (takeWhile (within_r_max it0)
                    (take (unat (m_num_neighbors it0)) (knn_buffer h bk it0 N))))"
proof -
  let ?k = "unat (m_num_neighbors it0)"
  let ?lc = "m_linkcell it0"
  have b: "m_is2D (m_neigh_cell_iter it0) = b" using init(1) by (simp add: IteratorCellShell_ctor_def)
  have ok: "shells_ok h b" using su b by (auto simp: knn_setup_def)
  have ok': "shells_ok h (m_is2D (m_neigh_cell_iter it0))" using ok b by simp
  have st: "shell_pos h b N = stop" using su b by (auto simp: knn_setup_def)
  have c0: "cell_at h it0 0 = getCell_of h (LinkCell.m_box ?lc) (m_celldim ?lc) (m_query_point it0)"
    using cell_at_0[of h it0] ok b by simp
  have d: "shell_deref h (m_neigh_cell_iter it0) = Inr zero_offset"
    using ok unfolding init(1) shell_deref_def IteratorCellShell_ctor_def shells_ok_def
    by (simp add: array_get_def)
  have ci: "getCellIndex h (m_celldim ?lc)
      (vec_plus (point_cell_of h ?lc (m_query_point it0)) zero_offset) = cell_at h it0 0"
    unfolding c0 by (simp add: getCell_of_def point_cell_of_def)
  have ci2: "getCellIndex h (m_celldim ?lc) (query_cell h it0) = cell_at h it0 0"
    using ci by (simp add: query_cell_def)
  have e0: "it0\<lparr> m_searched_cells := {cell_at h it0 0} \<rparr>
      = knn_at h it0 0 (itercell ?lc (cell_at h it0 0)) (cell_at h it0 ` {..0}) []"
    by (rule LinkCellQueryIterator.equality)
       (simp_all add: knn_at_def shell_pos_0 init c0 IteratorCellShell_ctor_def)
  have nx: "LinkCellQueryIterator_next h it0 =
      Option.bind
        (knn_search h (query_cell h it0) stop
           (knn_at h it0 0 (itercell ?lc (cell_at h it0 0)) (cell_at h it0 ` {..0}) []))
        (\<lambda>r. case r of Inl e \<Rightarrow> Some (Inl e) | Inr it2 \<Rightarrow> Some (yield_neighbor it2))"
    unfolding LinkCellQueryIterator_next_def
    by (simp add: mr d ci2 Let_def init(2,4) e0 stop[symmetric] query_cell_def[symmetric])
  have "\<exists>m' cur' S'. knn_search h (query_cell h it0) stop
           (knn_at h it0 0 (itercell ?lc (cell_at h it0 0)) (cell_at h it0 ` {..0}) [])
       = Some (Inr (knn_at h it0 m' cur' S' (knn_buffer h bk it0 N)))"
  proof (cases "N = 0")
    case True
    have "shell_pos h (m_is2D (m_neigh_cell_iter it0)) 0 = stop" using st True b by simp
    from knn_search_stop[of h it0 0 stop, OF this] show ?thesis
      unfolding knn_buffer_def using True by auto
  next
    case False
    then have "0 < N" by simp
    from knn_search_run[OF su this, of "[]"] show ?thesis
      unfolding knn_buffer_def using False by auto
  qed
  then obtain m' cur' S' where
    sr: "knn_search h (query_cell h it0) stop
           (knn_at h it0 0 (itercell ?lc (cell_at h it0 0)) (cell_at h it0 ` {..0}) [])
       = Some (Inr (knn_at h it0 m' cur' S' (knn_buffer h bk it0 N)))" by blast
  let ?buf = "knn_buffer h bk it0 N"
  let ?it2 = "knn_at h it0 m' cur' S' ?buf"
  have nx2: "LinkCellQueryIterator_next h it0 = Some (yield_neighbor ?it2)"
    unfolding nx sr by simp
  have w: "within_r_max ?it2 = within_r_max it0" by (rule ext) (simp add: within_r_max_def)
  have ys: "yield_neighbor ?it2 =
     (case take ?k ?buf of
        [] \<Rightarrow> Inr (ITERATOR_TERMINATOR, ?it2\<lparr> m_finished := True \<rparr>)
      | b # rest \<Rightarrow>
          if within_r_max it0 b then Inr (b, ?it2\<lparr> m_count := 1 \<rparr>)
          else Inr (ITERATOR_TERMINATOR, ?it2\<lparr> m_count := 1, m_finished := True \<rparr>))"
    using yield_step[of ?it2] unfolding w by (simp add: init(5) cong: list.case_cong if_cong)
  show ?thesis
  proof (cases "take ?k ?buf")
    case Nil
    have y: "yield_neighbor ?it2 = Inr (ITERATOR_TERMINATOR, ?it2\<lparr> m_finished := True \<rparr>)"
      unfolding ys Nil by simp
    have "knn_query h it0 = Some (Inr [])" by (subst knn_query.simps) (simp add: nx2 y)
    then show ?thesis unfolding Nil by simp
  next
    case (Cons x rest)
    then have ne: "?buf \<noteq> []" by auto
    have rest: "rest = drop (unat (1 :: 32 word)) (take ?k ?buf)"
      unfolding Cons by simp
    show ?thesis
    proof (cases "within_r_max it0 x")
      case True
      have y: "yield_neighbor ?it2 = Inr (x, ?it2\<lparr> m_count := 1 \<rparr>)"
        unfolding ys Cons using True by simp
      have "knn_query h (?it2\<lparr> m_count := 1 \<rparr>) = Some (Inr (takeWhile (within_r_max it0) rest))"
        unfolding rest by (rule knn_query_rest[OF ok' mr ne init(6)])
      then have "knn_query h it0 = Some (Inr (x # takeWhile (within_r_max it0) rest))"
        by (subst knn_query.simps) (simp add: nx2 y init(6))
      then show ?thesis unfolding Cons using True by simp
    next
      case False
      have y: "yield_neighbor ?it2
          = Inr (ITERATOR_TERMINATOR, ?it2\<lparr> m_count := 1, m_finished := True \<rparr>)"
        unfolding ys Cons using False by simp
      have "knn_query h it0 = Some (Inr [])" by (subst knn_query.simps) (simp add: nx2 y)
      then show ?thesis unfolding Cons using False by simp
    qed
  qed
qed

lemma knn_ctor_fields [simp]:
  "m_linkcell (LinkCellQueryIterator_ctor h lc q qi k r_max r_min excl) = lc"
  "m_query_point (LinkCellQueryIterator_ctor h lc q qi k r_max r_min excl) = q"
  "m_query_point_idx (LinkCellQueryIterator_ctor h lc q qi k r_max r_min excl) = qi"
  "LinkCellIterator.m_r_max (LinkCellQueryIterator_ctor h lc q qi k r_max r_min excl) = r_max"
  "m_r_min (LinkCellQueryIterator_ctor h lc q qi k r_max r_min excl) = r_min"
  "m_exclude_ii (LinkCellQueryIterator_ctor h lc q qi k r_max r_min excl) = excl"
  "m_neigh_cell_iter (LinkCellQueryIterator_ctor h lc q qi k r_max r_min excl)
     = IteratorCellShell_ctor 0 (is2D (LinkCell.m_box lc))"
  "m_cell_iter (LinkCellQueryIterator_ctor h lc q qi k r_max r_min excl)
     = itercell lc (getCell_of h (LinkCell.m_box lc) (m_celldim lc) q)"
  "m_searched_cells (LinkCellQueryIterator_ctor h lc q qi k r_max r_min excl) = {}"
  "m_finished (LinkCellQueryIterator_ctor h lc q qi k r_max r_min excl) = False"
  "m_count (LinkCellQueryIterator_ctor h lc q qi k r_max r_min excl) = 0"
  "m_num_neighbors (LinkCellQueryIterator_ctor h lc q qi k r_max r_min excl) = k"
  "m_current_neighbors (LinkCellQueryIterator_ctor h lc q qi k r_max r_min excl) = []"
  by (simp_all add: LinkCellQueryIterator_ctor_def LinkCellIterator_ctor_def
        LinkCellIterator.extend_def LinkCellQueryIterator.fields_def)

lemma shell_range_below:
  assumes ok: "shells_ok h b"
  shows "m < shell_start h b r \<Longrightarrow> m_range (shell_pos h b m) < r"
proof (induction r)
  case 0
  then show ?case by (simp add: shell_start_def)
next
  case (Suc r)
  have s: "shell_start h b (Suc r) = shell_start h b r + length (cell_shell h b r)"
    by (simp add: shell_start_def)
  show ?case
  proof (cases "m < shell_start h b r")
    case True
    then show ?thesis using Suc.IH by simp
  next
    case False
    define k where "k = m - shell_start h b r"
    have k: "k < length (cell_shell h b r)" "m = shell_start h b r + k"
      using False Suc.prems unfolding s k_def by simp_all
    have "shell_pos h b m = \<lparr> m_range = r, m_offset = k, m_is2D = b \<rparr>"
      unfolding k(2) by (rule shell_pos_within[OF ok k(1)])
    then show ?thesis by simp
  qed
qed

lemma shell_stop:
  assumes ok: "shells_ok h b"
  shows "shell_pos h b (shell_start h b r) = IteratorCellShell_ctor r b"
proof -
  have "0 < length (cell_shell h b r)" using ok by (simp add: shells_ok_def)
  from shell_pos_within[OF ok this] show ?thesis by (simp add: IteratorCellShell_ctor_def)
qed

lemma knn_scan_empty:
  assumes "\<forall>m. outf m = []" "0 < k"
  shows "knn_scan outf bound k [] m ms = []"
  using assms by (induction ms arbitrary: m) (simp_all add: Let_def)

lemma knn_query_visits:
  assumes ctor: "LinkCell_ctor (getCell_of h) box cw ps n = Inr lc"
    and size: "unat n < 2 ^ 31" "unat n + unat (m_size lc) < 2 ^ 32" "unat n \<le> length ps"
    and cells: "\<forall>c. unat (getCellIndex h (m_celldim lc) c) < unat (m_size lc)"
    and shells: "shells_ok h (is2D box)"
    and cw: "0 < cw"
    and k: "k \<noteq> 0"
    and R: "max_range_of lc = Inr R"
    and it0: "it0 = LinkCellQueryIterator_ctor h lc q qi k r_max r_min excl"
  shows "knn_query h it0 = Some (Inr (takeWhile (within_r_max it0) (take (unat k)
          (knn_buffer h (bucket_from (getCell_of h box (m_celldim lc)) ps (unat n) 0) it0
             (shell_start h (is2D box) (unat R))))))"
proof -
  let ?g = "getCell_of h box (m_celldim lc)"
  let ?bk = "bucket_from ?g ps (unat n) 0"
  define N where "N = shell_start h (is2D box) (unat R)"
  define stop where "stop = IteratorCellShell_ctor (unat R) (is2D box)"
  have valid: "\<forall>j < unat n. unat (?g (ps ! j)) < unat (m_size lc)"
    using cells by (simp add: getCell_of_def)
  from LinkCell_ctor_linked[OF ctor size valid] have
    f: "LinkCell.m_box lc = box" "m_points lc = ps" "m_n_points lc = n" "m_cell_width lc = cw"
    and linked: "cells_linked ?g ps n (unat (m_size lc)) 0 (m_cell_list lc)" by simp_all
  have b: "m_is2D (m_neigh_cell_iter it0) = is2D box"
    unfolding it0 by (simp add: f IteratorCellShell_ctor_def)
  have lc0: "m_linkcell it0 = lc" unfolding it0 by simp
  have n32: "unat n < 2 ^ 32" using size(2) by simp
  have bks: "chain (m_cell_list lc) (itercell lc c) (?bk c)
         \<and> (\<forall>j \<in> set (?bk c). unat j < length (m_points lc))
         \<and> itercell lc c \<noteq> LINK_CELL_TERMINATOR"
    if c: "unat c < unat (m_size lc)" for c
  proof (intro conjI)
    show "chain (m_cell_list lc) (itercell lc c) (?bk c)"
      using linked c unfolding cells_linked_def itercell_def f by simp
    show "\<forall>j \<in> set (?bk c). unat j < length (m_points lc)"
    proof
      fix j assume "j \<in> set (?bk c)"
      from bucket_from_elem[OF this n32] have "unat j < unat n" by simp
      then show "unat j < length (m_points lc)" unfolding f using size(3) by simp
    qed
    have s: "unat n + unat c < 2 ^ 32" using c size(2) by simp
    have "unat (n + c) = unat n + unat c" using s by (rule unat_add_word)
    then have "unat (n + c) < 2 ^ 32 - 1" using c size(2) by simp
    then have "unat (n + c) \<noteq> unat LINK_CELL_TERMINATOR" by (simp add: LINK_CELL_TERMINATOR_def)
    then show "itercell lc c \<noteq> LINK_CELL_TERMINATOR" unfolding itercell_def f by auto
  qed
  have ca: "unat (cell_at h it0 m) < unat (m_size lc)" for m
    using cells unfolding cell_at_def Let_def lc0 by simp
  have su: "knn_setup h ?bk it0 N stop"
    unfolding knn_setup_def b lc0
  proof (intro conjI allI impI)
    show "shells_ok h (is2D box)" by (rule shells)
    show "shell_pos h (is2D box) N = stop" unfolding N_def stop_def by (rule shell_stop[OF shells])
    show "shell_pos h (is2D box) m \<noteq> stop" if "m < N" for m
    proof -
      have "m_range (shell_pos h (is2D box) m) < unat R"
        using that unfolding N_def by (rule shell_range_below[OF shells])
      then show ?thesis unfolding stop_def IteratorCellShell_ctor_def by auto
    qed
    show "chain (m_cell_list lc) (itercell lc (cell_at h it0 m)) (?bk (cell_at h it0 m))" for m
      using bks[OF ca] by simp
    show "\<forall>j \<in> set (?bk (cell_at h it0 m)). unat j < length (m_points lc)" for m
      using bks[OF ca] by simp
    show "itercell lc (cell_at h it0 m) \<noteq> LINK_CELL_TERMINATOR" for m
      using bks[OF ca] by simp
    show "m_num_neighbors it0 \<noteq> 0" unfolding it0 using k by simp
  qed
  have mr: "max_range_of (m_linkcell it0) = Inr R" unfolding lc0 by (rule R)
  have st: "stop = IteratorCellShell_ctor (unat R) (is2D (LinkCell.m_box (m_linkcell it0)))"
    unfolding lc0 f stop_def ..
  have i1: "m_neigh_cell_iter it0 = IteratorCellShell_ctor 0 (is2D box)" unfolding it0 by (simp add: f)
  have i2: "m_searched_cells it0 = {}" unfolding it0 by simp
  have i3: "m_cell_iter it0 = itercell (m_linkcell it0)
         (getCell_of h (LinkCell.m_box (m_linkcell it0)) (m_celldim (m_linkcell it0)) (m_query_point it0))"
    unfolding it0 by simp
  have i4: "m_current_neighbors it0 = []" unfolding it0 by simp
  have i5: "m_count it0 = 0" unfolding it0 by simp
  have i6: "\<not> m_finished it0" unfolding it0 by simp
  have kk: "m_num_neighbors it0 = k" unfolding it0 by simp
  from knn_query_initial[OF su mr st i1 i2 i3 i4 i5 i6]
  have "knn_query h it0 = Some (Inr (takeWhile (within_r_max it0) (take (unat k)
          (knn_buffer h ?bk it0 N))))" unfolding kk .
  then show ?thesis unfolding N_def .
qed

lemma knn_query_single:
  assumes ctor: "LinkCell_ctor (getCell_of h) box cw [p] 1 = Inr lc"
    and size: "1 + unat (m_size lc) < 2 ^ 32"
    and cells: "\<forall>c. unat (getCellIndex h (m_celldim lc) c) < unat (m_size lc)"
    and shells: "shells_ok h (is2D box)"
    and cw: "0 < cw"
    and k: "k \<noteq> 0"
    and R: "max_range_of lc = Inr R"
  shows "knn_query h (LinkCellQueryIterator_ctor h lc q 0 k r_max r_min True) = Some (Inr [])"
proof -
  define it0 where "it0 = LinkCellQueryIterator_ctor h lc q 0 k r_max r_min True"
  let ?g = "getCell_of h box (m_celldim lc)"
  let ?bk = "bucket_from ?g [p] (unat (1 :: 32 word)) 0"
  have s1: "unat (1 :: 32 word) < 2 ^ 31" by simp
  have s2: "unat (1 :: 32 word) + unat (m_size lc) < 2 ^ 32" using size by simp
  have s3: "unat (1 :: 32 word) \<le> length [p]" by simp
  from knn_query_visits[OF ctor s1 s2 s3 cells shells cw k R it0_def] have
    N: "knn_query h it0 = Some (Inr (takeWhile (within_r_max it0) (take (unat k)
          (knn_buffer h ?bk it0 (shell_start h (is2D box) (unat R))))))" .
  have np: "\<not> passes it0 j" if "j \<in> set (?bk c)" for j c
  proof -
    from bucket_from_elem[OF that] have "unat j < 1" by simp
    then have "j = 0" by (simp add: unat_eq_0)
    then show ?thesis unfolding passes_def it0_def by simp
  qed
  have "filter (passes it0) (?bk c) = []" for c
    using np by (auto simp: filter_empty_conv)
  then have e: "\<forall>m. cell_out ?bk it0 (cell_at h it0 m) = []" by (simp add: cell_out_def)
  have kp: "0 < unat (m_num_neighbors it0)" unfolding it0_def using k by (simp add: unat_gt_0)
  have "knn_buffer h ?bk it0 N = []" for N
    unfolding knn_buffer_def using knn_scan_empty[OF e kp] by simp
  then show ?thesis using N unfolding it0_def by simp
qed

lemma grid_ctor: "LinkCell_ctor (getCell_of grid_h) cube10 5 [origin] 1 = Inr lc_cube"
proof -
  have f: "float_div 10 5 = 2" by (simp add: float_eval)
  have g: "getCell_of grid_h cube10 \<lparr> vec_x = 2, vec_y = 2, vec_z = 2 \<rparr> origin = 7"
    by (simp add: getCell_of_def grid_h_def grid_index_def grid_coord_def vec_int_def cube10_def
          origin_def)
  have d: "computeDimensions cube10 5 = Inr \<lparr> vec_x = 2, vec_y = 2, vec_z = 2 \<rparr>"
    by (simp add: computeDimensions_def cube10_def quotient_to_uint_def float_to_uint_def f)
  have b: "\<not> box_too_small cube10 5" "\<not> is2D cube10"
    by (simp_all add: box_too_small_def cube10_def)
  have c: "computeCellList (getCell_of grid_h cube10 \<lparr> vec_x = 2, vec_y = 2, vec_z = 2 \<rparr>)
            \<lparr> LinkCell.m_box = cube10, m_points = [origin], m_n_points = 0, m_cell_width = 5,
              m_celldim = \<lparr> vec_x = 2, vec_y = 2, vec_z = 2 \<rparr>, m_size = 8, m_Nc = 0,
              m_cell_list = [], m_cell_neighbors = Map.empty \<rparr> [origin] 1 = (None, lc_cube)"
    by (simp add: computeCellList_def getNumCells_def g upt_rec array_set_def array_get_def
          LINK_CELL_TERMINATOR_def lc_cube_def)
       (simp add: eval_nat_numeral)
  show ?thesis unfolding LinkCell_ctor_def d using b by (simp add: Let_def c)
qed

lemma grid_cells: "unat (getCellIndex grid_h (m_celldim lc_cube) c) < unat (m_size lc_cube)"
proof -
  define x where "x = vec_x c mod 2"
  define y where "y = vec_y c mod 2"
  define z where "z = vec_z c mod 2"
  define v where "v = x + 2 * (y + 2 * z)"
  have m: "0 \<le> x" "x < 2" "0 \<le> y" "y < 2" "0 \<le> z" "z < 2"
    unfolding x_def y_def z_def by simp_all
  have r: "0 \<le> v" "v < 8" unfolding v_def using m by simp_all
  have "unat (word_of_int v :: 32 word) = nat v"
    using r by (simp add: unat_eq_nat_uint uint_word_of_int take_bit_int_eq_self)
  then have "unat (word_of_int v :: 32 word) < 8" using r by simp
  then show ?thesis
    by (simp add: grid_h_def grid_index_def lc_cube_def v_def x_def y_def z_def)
qed

lemma grid_shells: "shells_ok grid_h b"
proof -
  have z: "cell_shell grid_h b 0 = [zero_offset]"
    by (simp add: grid_h_def grid_shell_def zero_offset_def)
  have e: "\<lparr> vec_x = int r, vec_y = 0, vec_z = 0 \<rparr> \<in> set (cell_shell grid_h b r)" for r
    by (simp add: grid_h_def grid_shell_def)
  have "cell_shell grid_h b r \<noteq> []" for r
  proof
    assume "cell_shell grid_h b r = []"
    then show False using e[of r] by simp
  qed
  then show ?thesis using z by (simp add: shells_ok_def)
qed

lemma grid_max_range: "max_range_of lc_cube = Inr 2"
proof -
  have f: "float_mul 2 5 = 10" "float_div 10 10 = 1" "float_add 1 1 = 2"
    by (simp_all add: float_eval)
  show ?thesis
    by (simp add: max_range_of_def lc_cube_def cube10_def getCellWidth_def f float_to_uint_def)
qed



text \<open>
  C9. For a cell list built by the constructor for a single point, with a positive
  cell width, cell indices within the grid, no empty shell, a defined bound on the
  shell radius and \<open>k\<close> at least 1: with \<open>exclude_ii\<close> set and the point as the query
  point with its own index, the ball query and the nearest-neighbor query both return
  and yield no bond, for every \<open>r_max\<close> and \<open>r_min\<close>.
\<close>

theorem single_point_excluded:
  assumes ctor: "LinkCell_ctor (getCell_of h) box cw [p] 1 = Inr lc"
    and size: "1 + unat (m_size lc) < 2 ^ 32"
    and cells: "\<forall>c. unat (getCellIndex h (m_celldim lc) c) < unat (m_size lc)"
    and shells: "shells_ok h (is2D box)"
    and cw: "0 < cw"
    and k: "k \<noteq> 0"
    and R: "max_range_of lc = Inr R"
  shows "ball_query h (LinkCellQueryBallIterator_ctor h lc p 0 r_max r_min True) = Some (Inr [])
     \<and> knn_query h (LinkCellQueryIterator_ctor h lc p 0 k r_max r_min True) = Some (Inr [])"
  using ball_query_single[OF ctor size cells shells cw]
    knn_query_single[OF ctor size cells shells cw k R] by simp

theorem single_point_excluded_witness:
  "ball_query grid_h (LinkCellQueryBallIterator_ctor grid_h lc_cube origin 0 3 0 True)
     = Some (Inr [])
   \<and> knn_query grid_h (LinkCellQueryIterator_ctor grid_h lc_cube origin 0 1 3 0 True)
     = Some (Inr [])"
proof -
  have s: "1 + unat (m_size lc_cube) < 2 ^ 32" by (simp add: lc_cube_def)
  have c: "\<forall>c. unat (getCellIndex grid_h (m_celldim lc_cube) c) < unat (m_size lc_cube)"
    using grid_cells by blast
  have sh: "shells_ok grid_h (is2D cube10)" by (rule grid_shells)
  have cw: "(0 :: real) < 5" by simp
  have k: "(1 :: 32 word) \<noteq> 0" by simp
  show ?thesis
    by (rule single_point_excluded [OF grid_ctor s c sh cw k grid_max_range])
qed

section \<open>Properties of the configuration errors\<close>

lemma accumulate_bond_error:
  "accumulate_bond values query_values cf tb = Inl e \<Longrightarrow> e = out_of_bounds"
  by (auto simp: accumulate_bond_def Let_def local_update_def array_get_def
        split: if_splits sum.splits)

lemma accumulate_bonds_error:
  "accumulate_bonds values query_values cf bonds = Inl e \<Longrightarrow> e = out_of_bounds"
proof (induction bonds arbitrary: cf)
  case Nil
  then show ?case by simp
next
  case (Cons tb bonds)
  show ?case
  proof (cases "accumulate_bond values query_values cf tb")
    case (Inl e')
    then have "e' = e" using Cons.prems by simp
    then show ?thesis using Inl accumulate_bond_error by blast
  next
    case (Inr cf')
    then have "accumulate_bonds values query_values cf' bonds = Inl e" using Cons.prems by simp
    then show ?thesis by (rule Cons.IH)
  qed
qed

text \<open>
  C6, as stated, fails for \<open>accumulate\<close>: it assigns \<open>m_box\<close> before the neighbor loop
  runs, so when the loop throws at its start, as for refused query arguments, the box
  of the correlation function has already been replaced.
\<close>

theorem accumulate_box_counterexample:
  "accumulate_query thin_box [] []
       (Inl (invalid_argument ''r_max and r_min must be nonnegative and r_min < r_max.''))
       cf_example
     = (Some (invalid_argument ''r_max and r_min must be nonnegative and r_min < r_max.''),
        cf_example\<lparr> m_box := thin_box \<rparr>)
   \<and> m_box cf_example = cube10
   \<and> getNearestPlaneDistance thin_box \<noteq> getNearestPlaneDistance cube10"
  by (simp add: accumulate_query_def cf_example_def thin_box_def cube10_def)

text \<open>
  C6, amended. The constructor of \<open>CorrelationFunction\<close> raises \<open>invalid_argument\<close>
  exactly for \<open>dr <= 0\<close>, \<open>r_max <= 0\<close> or \<open>dr > r_max\<close>, and then no object exists. The
  constructor of \<open>LinkCell\<close> raises the error for a box that is too small before the
  cell list is built. \<open>computeCellList\<close> raises the error for an empty point set as
  its first statement, with the object unchanged, and raises no \<open>runtime_error\<close>
  later. \<open>querySingle\<close> hands on the error of \<open>validateQueryArgs\<close> without making an
  iterator. The lambda of \<open>accumulate\<close> raises none of these errors. When the neighbor
  loop throws at its start, \<open>accumulate\<close> has changed \<open>m_box\<close> and nothing else: no bin,
  not the frame counter and not \<open>m_reduce\<close>.
\<close>

theorem config_errors_before_bins:
  fixes cf :: "('a::field) CorrelationFunction"
  shows "((\<exists>m. (CorrelationFunction_ctor box0 n_threads r_max dr
                  :: error + 'a CorrelationFunction) = Inl (invalid_argument m))
            \<longleftrightarrow> dr \<le> 0 \<or> r_max \<le> 0 \<or> dr > r_max)
     \<and> (box_too_small box cell_width \<and> computeDimensions box cell_width = Inr celldim \<longrightarrow>
          LinkCell_ctor gc box cell_width points n_points
            = Inl (runtime_error
                ''Cannot generate a cell list where cell_width is larger than half the box.''))
     \<and> computeCellList g lc points 0
         = (Some (runtime_error ''Cannot generate a cell list of 0 particles.''), lc)
     \<and> (computeCellList g lc points n_points = (Some (runtime_error msg), lc')
          \<longrightarrow> n_points = 0 \<and> lc' = lc)
     \<and> (validateQueryArgs h lc args = Inl e \<longrightarrow> querySingle h lc q qi args = Inl e)
     \<and> (accumulate_bonds vs qvs cf bonds = Inl e' \<longrightarrow> e' = out_of_bounds)
     \<and> accumulate_query box vs qvs (Inl e) cf = (Some e, cf\<lparr> m_box := box \<rparr>)"
proof (intro conjI impI)
  show "(\<exists>m. (CorrelationFunction_ctor box0 n_threads r_max dr
                  :: error + 'a CorrelationFunction) = Inl (invalid_argument m))
            \<longleftrightarrow> dr \<le> 0 \<or> r_max \<le> 0 \<or> dr > r_max"
    by (auto simp: CorrelationFunction_ctor_def floorf_to_int_def split: sum.splits if_splits)
next
  assume "box_too_small box cell_width \<and> computeDimensions box cell_width = Inr celldim"
  then show "LinkCell_ctor gc box cell_width points n_points
            = Inl (runtime_error
                ''Cannot generate a cell list where cell_width is larger than half the box.'')"
    by (simp add: LinkCell_ctor_def)
next
  show "computeCellList g lc points 0
         = (Some (runtime_error ''Cannot generate a cell list of 0 particles.''), lc)"
    by (simp add: computeCellList_def)
next
  assume a: "computeCellList g lc points n_points = (Some (runtime_error msg), lc')"
  from computeCellList_error[OF a] show "n_points = 0" by auto
  from computeCellList_error[OF a] show "lc' = lc" by auto
next
  assume "validateQueryArgs h lc args = Inl e"
  then show "querySingle h lc q qi args = Inl e" by (simp add: querySingle_def)
next
  assume "accumulate_bonds vs qvs cf bonds = Inl e'"
  then show "e' = out_of_bounds" by (rule accumulate_bonds_error)
next
  show "accumulate_query box vs qvs (Inl e) cf = (Some e, cf\<lparr> m_box := box \<rparr>)"
    by (simp add: accumulate_query_def)
qed

theorem config_errors_before_bins_witness:
  "(CorrelationFunction_ctor cube10 1 1 2 :: error + real CorrelationFunction)
     = Inl (invalid_argument ''CorrelationFunction requires dr must be less than or equal to r_max.'')
   \<and> box_too_small cube10 (41 / 8)
   \<and> computeDimensions cube10 (41 / 8) = Inr \<lparr> vec_x = 1, vec_y = 1, vec_z = 1 \<rparr>
   \<and> LinkCell_ctor getCell_first cube10 (41 / 8) [] 0
       = Inl (runtime_error
           ''Cannot generate a cell list where cell_width is larger than half the box.'')
   \<and> computeCellList (getCell_first cube10 (m_celldim lc_cube)) lc_cube [] 0
       = (Some (runtime_error ''Cannot generate a cell list of 0 particles.''), lc_cube)
   \<and> validateQueryArgs grid_h lc_cube args_bad
       = Inl (invalid_argument ''r_max and r_min must be nonnegative and r_min < r_max.'')
   \<and> querySingle grid_h lc_cube origin 0 args_bad
       = Inl (invalid_argument ''r_max and r_min must be nonnegative and r_min < r_max.'')
   \<and> accumulate_bonds [] [] cf_example [(0, bond_example)] = Inl out_of_bounds"
proof -
  have f: "float_div 10 (41 / 8) = 1023001 / 524288" by (simp add: float_eval)
  have 1: "(CorrelationFunction_ctor cube10 1 1 2 :: error + real CorrelationFunction)
     = Inl (invalid_argument ''CorrelationFunction requires dr must be less than or equal to r_max.'')"
    by (simp add: CorrelationFunction_ctor_def)
  have 2: "box_too_small cube10 (41 / 8)" by (simp add: box_too_small_def cube10_def)
  have 3: "computeDimensions cube10 (41 / 8) = Inr \<lparr> vec_x = 1, vec_y = 1, vec_z = 1 \<rparr>"
    by (simp add: computeDimensions_def cube10_def quotient_to_uint_def float_to_uint_def f)
  have 4: "validateQueryArgs grid_h lc_cube args_bad
       = Inl (invalid_argument ''r_max and r_min must be nonnegative and r_min < r_max.'')"
    by (simp add: grid_h_def args_bad_def)
  have g: "float_div 1 1 = 1" "float_mul (3 / 2) 1 = 3 / 2" by (simp_all add: float_eval)
  have 5: "accumulate_bonds [] [] cf_example [(0, bond_example)] = (Inl out_of_bounds :: error + real CorrelationFunction)"
    by (simp add: accumulate_bond_def cf_example_def bond_example_def g cvtt_ss2si_def
          local_update_def array_get_def)
  have 6: "computeCellList (getCell_first cube10 (m_celldim lc_cube)) lc_cube [] 0
       = (Some (runtime_error ''Cannot generate a cell list of 0 particles.''), lc_cube)"
    by (simp add: computeCellList_def)
  show ?thesis
    using config_errors_before_bins [where box0 = cube10 and n_threads = 1 and r_max = 1 and dr = 2
        and box = cube10 and cell_width = "41 / 8"
        and celldim = "\<lparr> vec_x = 1, vec_y = 1, vec_z = 1 \<rparr>"
        and gc = getCell_first and points = "[]" and n_points = 0
        and g = "getCell_first cube10 (m_celldim lc_cube)" and lc = lc_cube
        and lc' = lc_cube and msg = "''Cannot generate a cell list of 0 particles.''"
        and h = grid_h and args = args_bad
        and e = "invalid_argument ''r_max and r_min must be nonnegative and r_min < r_max.''"
        and q = origin and qi = 0 and vs = "[]" and qvs = "[]"
        and cf = cf_example and bonds = "[(0, bond_example)]" and e' = out_of_bounds]
      1 2 3 4 5 6
    by simp
qed

end
